theory Spec2Isabelle
  imports Main "HOL-Library.FSet" "HOL-Library.AList" "HOL-Library.Sublist"
begin

section \<open>The two source files of the crawler\<close>

text \<open>
  The crawler exists in two source files: \<^verbatim>\<open>src/crawler.js\<close> (a browser per page, an
  axios fallback in the \<^verbatim>\<open>catch\<close> block) and \<^verbatim>\<open>src/unnamed/part_000\<close> (one shared browser,
  \<^verbatim>\<open>normalizeUrl\<close>, sitemap seeding, no fallback). The blocks that are textually the same in
  both files are embedded once; where the files differ, the definition of
  \<^verbatim>\<open>src/unnamed/part_000\<close> keeps the source's name and the one of \<^verbatim>\<open>src/crawler.js\<close> carries the
  suffix \<open>_crawler_js\<close>.
\<close>


section \<open>Strings as the crawler handles them\<close>

text \<open>
  A string of the model is the UTF-8 encoding of the JavaScript string, one \<^typ>\<open>char\<close> for
  each byte. On well-formed strings \<^verbatim>\<open>startsWith\<close>, \<^verbatim>\<open>endsWith\<close>, \<^verbatim>\<open>===\<close>, \<^verbatim>\<open>includes\<close> and the
  split at \<^verbatim>\<open>#\<close> give the same answers on the encodings as on the UTF-16 code units.
\<close>

definition startsWith :: "string \<Rightarrow> string \<Rightarrow> bool" where
  \<comment> \<open>\<^verbatim>\<open>s.startsWith(p)\<close>\<close>
  "startsWith s p = prefix p s"

definition endsWith :: "string \<Rightarrow> string \<Rightarrow> bool" where
  \<comment> \<open>\<^verbatim>\<open>s.endsWith(p)\<close>\<close>
  "endsWith s p = suffix p s"

definition white_space :: "string list" where
  \<comment> \<open>the code points that \<^verbatim>\<open>String.prototype.trim\<close> removes, encoded: the WhiteSpace of
      ECMAScript (U+0009, U+000B, U+000C, U+FEFF and the space separators U+0020, U+00A0,
      U+1680, U+2000 to U+200A, U+202F, U+205F, U+3000) and its LineTerminator (U+000A,
      U+000D, U+2028, U+2029)\<close>
  "white_space =
     [[CHR 0x09], [CHR 0x0A], [CHR 0x0B], [CHR 0x0C], [CHR 0x0D], [CHR 0x20],
      [CHR 0xC2, CHR 0xA0],
      [CHR 0xE1, CHR 0x9A, CHR 0x80],
      [CHR 0xE2, CHR 0x80, CHR 0x80], [CHR 0xE2, CHR 0x80, CHR 0x81],
      [CHR 0xE2, CHR 0x80, CHR 0x82], [CHR 0xE2, CHR 0x80, CHR 0x83],
      [CHR 0xE2, CHR 0x80, CHR 0x84], [CHR 0xE2, CHR 0x80, CHR 0x85],
      [CHR 0xE2, CHR 0x80, CHR 0x86], [CHR 0xE2, CHR 0x80, CHR 0x87],
      [CHR 0xE2, CHR 0x80, CHR 0x88], [CHR 0xE2, CHR 0x80, CHR 0x89],
      [CHR 0xE2, CHR 0x80, CHR 0x8A],
      [CHR 0xE2, CHR 0x80, CHR 0xA8], [CHR 0xE2, CHR 0x80, CHR 0xA9],
      [CHR 0xE2, CHR 0x80, CHR 0xAF],
      [CHR 0xE2, CHR 0x81, CHR 0x9F],
      [CHR 0xE3, CHR 0x80, CHR 0x80],
      [CHR 0xEF, CHR 0xBB, CHR 0xBF]]"

function trimStart :: "string \<Rightarrow> string" where
  "trimStart s =
     (case List.find (\<lambda>w. prefix w s) white_space of
        None \<Rightarrow> s
      | Some w \<Rightarrow> trimStart (drop (length w) s))"
  by pat_completeness auto

termination trimStart
proof (relation "measure length")
  show "wf (measure length)" by simp
next
  fix s :: string and w
  assume "List.find (\<lambda>w. prefix w s) white_space = Some w"
  then have "w \<in> set white_space" and "prefix w s"
    by (auto simp: find_Some_iff)
  then have "w \<noteq> []" and "length w \<le> length s"
    by (auto simp: white_space_def prefix_length_le)
  then show "(drop (length w) s, s) \<in> measure length" by (cases w) auto
qed

function trimEnd :: "string \<Rightarrow> string" where
  "trimEnd s =
     (case List.find (\<lambda>w. suffix w s) white_space of
        None \<Rightarrow> s
      | Some w \<Rightarrow> trimEnd (take (length s - length w) s))"
  by pat_completeness auto

termination trimEnd
proof (relation "measure length")
  show "wf (measure length)" by simp
next
  fix s :: string and w
  assume "List.find (\<lambda>w. suffix w s) white_space = Some w"
  then have "w \<in> set white_space" and "suffix w s"
    by (auto simp: find_Some_iff)
  then have "w \<noteq> []" and "length w \<le> length s"
    by (auto simp: white_space_def suffix_length_le)
  then show "(take (length s - length w) s, s) \<in> measure length" by (cases w) auto
qed

definition trim :: "string \<Rightarrow> string" where
  \<comment> \<open>\<^verbatim>\<open>s.trim()\<close>\<close>
  "trim s = trimEnd (trimStart s)"

definition split_hash_first :: "string \<Rightarrow> string" where
  \<comment> \<open>\<^verbatim>\<open>href.split("#")[0]\<close>\<close>
  "split_hash_first s = takeWhile (\<lambda>c. c \<noteq> CHR ''#'') s"

section \<open>The URL class of the runtime\<close>

text \<open>
  \<^verbatim>\<open>new URL(...)\<close> is the WHATWG parser of the JavaScript runtime, not code of the repository.
  It is a parameter of the model: each field gives the result of one use the crawler makes
  of it, \<open>None\<close> when the constructor throws.
\<close>

record url_api =
  url_href :: "string \<Rightarrow> string option"
  url_resolve :: "string \<Rightarrow> string \<Rightarrow> string option"
  url_origin :: "string \<Rightarrow> string option"

definition normalizeUrl :: "url_api \<Rightarrow> string \<Rightarrow> string" where
  \<comment> \<open>\<^verbatim>\<open>try { return new URL(url).href; } catch (e) { return url; }\<close>\<close>
  "normalizeUrl api u = (case url_href api u of Some h \<Rightarrow> h | None \<Rightarrow> u)"

definition href_idempotent :: "url_api \<Rightarrow> bool" where
  \<comment> \<open>parsing a serialised URL gives the same serialisation back\<close>
  "href_idempotent api = (\<forall>u h. url_href api u = Some h \<longrightarrow> url_href api h = Some h)"

definition resolve_keeps_hash_free :: "url_api \<Rightarrow> bool" where
  \<comment> \<open>resolving a reference that holds no \<^verbatim>\<open>#\<close> gives a URL with no fragment\<close>
  "resolve_keeps_hash_free api =
     (\<forall>r b h. url_resolve api r b = Some h \<longrightarrow> CHR ''#'' \<notin> set r \<longrightarrow> CHR ''#'' \<notin> set h)"

text \<open>
  A finite table of what Node's \<^verbatim>\<open>URL\<close> returns on the inputs used in the examples below.
  An input outside the table is treated as one on which the constructor throws; the
  examples rely on that for two inputs only, on which Node does throw:
  \<^verbatim>\<open>new URL("/about")\<close> (a relative reference with no base) and
  \<^verbatim>\<open>new URL("//", "https://example.com/")\<close> (an empty host).
\<close>

definition sample_href_table :: "(string \<times> string) list" where
  "sample_href_table =
     [(''https://example.com'', ''https://example.com/''),
      (''https://example.com/'', ''https://example.com/''),
      (''https://example.com/a'', ''https://example.com/a''),
      (''https://example.com/b'', ''https://example.com/b''),
      (''https://example.com/x'', ''https://example.com/x''),
      (''https://example.com/y'', ''https://example.com/y''),
      (''https://example.com/z'', ''https://example.com/z''),
      (''https://example.com/a#top'', ''https://example.com/a#top''),
      (''HTTPS://EXAMPLE.COM/a'', ''https://example.com/a'')]"

definition sample_resolve_table :: "((string \<times> string) \<times> string) list" where
  "sample_resolve_table =
     [((''/about'', ''https://example.com/''), ''https://example.com/about''),
      ((''b'', ''https://example.com/''), ''https://example.com/b''),
      ((''MAILTO:me@example.com'', ''https://example.com/''), ''mailto:me@example.com''),
      ((''data:text/plain,hi'', ''https://example.com/''), ''data:text/plain,hi'')]"

definition sample_origin_table :: "(string \<times> string) list" where
  "sample_origin_table =
     [(''https://example.com'', ''https://example.com''),
      (''https://example.com/'', ''https://example.com''),
      (''https://example.com.evil.org/login'', ''https://example.com.evil.org'')]"

definition sample_api :: url_api where
  "sample_api =
     \<lparr>url_href = map_of sample_href_table,
      url_resolve = (\<lambda>r b. map_of sample_resolve_table (r, b)),
      url_origin = map_of sample_origin_table\<rparr>"


section \<open>Session state: the module-level variables\<close>

datatype status = StatusCode nat | StatusText string

record link_record =
  lr_url :: string
  lr_status :: status

record dup_issue =
  dup_url :: string
  duplicateOf :: string
  issue :: string

datatype ext_link =
    FromTo string string
    \<comment> \<open>\<^verbatim>\<open>{ from, to }\<close>, pushed by the link loop of crawlPage\<close>
  | LinkData string string string bool bool
    \<comment> \<open>\<^verbatim>\<open>{ from, to, text, hasText, isInternal }\<close>, built by extractLinks\<close>

text \<open>
  What the DOM extraction writes into the report arrays is opaque to the crawl engine: a
  row is the text of one pushed object.
\<close>

type_synonym row = string

datatype js_number = Number nat | Quotient nat nat
  \<comment> \<open>an integer literal, or the double that \<^verbatim>\<open>a / b\<close> yields for two integers, kept as
      its operands (the value is the IEEE quotient, \<^verbatim>\<open>NaN\<close> or \<^verbatim>\<open>Infinity\<close> when \<open>b\<close> is 0)\<close>

record perf =
  startTime :: nat
  pagesCrawled :: nat
  errors :: nat
  averageResponseTime :: js_number
  totalResponseTime :: nat

record session =
  visited :: "string fset"
  workingLinks :: "link_record list"
  brokenLinks :: "link_record list"
  seoInsights :: "row list"
  imageAlts :: "row list"
  keywordStats :: "row list"
  externalLinks :: "ext_link list"
  missingAnchorTexts :: "(string \<times> string) list"
  accessibilityIssues :: "row list"
  metaTagAudit :: "row list"
  structuredData :: "row list"
  technicalSeo :: "row list"
  ogTags :: "row list"
  metaTags :: "row list"
  pagePerformanceMetrics :: "row list"
  webCoreVitals :: "row list"
  duplicateContentIssues :: "dup_issue list"
  contentHashes :: "(string \<times> string) list"
  brokenResources :: "row list"
  sitemapRobotsInfo :: "row list"
  missingSeoIssues :: "row list"
  pagesScanned :: nat
  performanceMetrics :: perf

definition MAX_PAGES :: nat where
  "MAX_PAGES = 2000"

definition MAX_PAGES_crawler_js :: nat where
  "MAX_PAGES_crawler_js = 50000"

definition runCrawl_reset :: "nat \<Rightarrow> session \<Rightarrow> session" where
  \<comment> \<open>the block "Reset all stateful arrays and sets" and "Reset performance metrics" at the
      head of runCrawl, the same in both files; \<open>now\<close> is \<^verbatim>\<open>Date.now()\<close>.
      \<^verbatim>\<open>contentHashes\<close> is not among the variables the block assigns.\<close>
  "runCrawl_reset now s =
     s\<lparr>visited := {||},
       workingLinks := [],
       brokenLinks := [],
       seoInsights := [],
       imageAlts := [],
       keywordStats := [],
       externalLinks := [],
       missingAnchorTexts := [],
       accessibilityIssues := [],
       metaTagAudit := [],
       structuredData := [],
       technicalSeo := [],
       ogTags := [],
       metaTags := [],
       pagePerformanceMetrics := [],
       webCoreVitals := [],
       duplicateContentIssues := [],
       brokenResources := [],
       sitemapRobotsInfo := [],
       missingSeoIssues := [],
       pagesScanned := 0,
       performanceMetrics :=
         \<lparr>startTime = now, pagesCrawled = 0, errors = 0,
          averageResponseTime = Number 0, totalResponseTime = 0\<rparr>\<rparr>"

definition module_load :: "nat \<Rightarrow> session" where
  \<comment> \<open>the initial values of the module-level declarations\<close>
  "module_load now =
     \<lparr>visited = {||}, workingLinks = [], brokenLinks = [], seoInsights = [], imageAlts = [],
      keywordStats = [], externalLinks = [], missingAnchorTexts = [],
      accessibilityIssues = [], metaTagAudit = [], structuredData = [], technicalSeo = [],
      ogTags = [], metaTags = [], pagePerformanceMetrics = [], webCoreVitals = [],
      duplicateContentIssues = [], contentHashes = [], brokenResources = [],
      sitemapRobotsInfo = [], missingSeoIssues = [], pagesScanned = 0,
      performanceMetrics =
        \<lparr>startTime = now, pagesCrawled = 0, errors = 0,
         averageResponseTime = Number 0, totalResponseTime = 0\<rparr>\<rparr>"


section \<open>What the environment hands to crawlPage\<close>

record js_error =
  err_response_status :: "nat option"
  err_code :: "string option"
  err_message :: string

text \<open>
  The loaded document, as far as crawlPage reads it through cheerio. The hash is the
  SHA-256 of the normalised body text; the anchors are the \<^verbatim>\<open>a[href]\<close> elements in document
  order with their \<^verbatim>\<open>href\<close> attribute and trimmed text; the other fields are the rows that the
  extraction code pushes for this page.
\<close>

record page_doc =
  pg_hash :: string
  pg_anchors :: "(string \<times> string) list"
  pg_formHeadingIssues :: "row list"
  pg_missingSeo :: "row list"
  pg_metaTags :: "row list"
  pg_ogTags :: "row list"
  pg_seoInsight :: row
  pg_metaTagAudit :: row
  pg_technicalSeo :: row
  pg_imageAlts :: "row list"
  pg_imageIssues :: "row list"
  pg_structuredData :: "row list"
  pg_keywordStats :: "row list"

section \<open>The running system\<close>

text \<open>
  JavaScript runs each stretch of code between two \<^verbatim>\<open>await\<close>s without interruption, so a
  crawlPage invocation is a sequence of atomic segments, and concurrent invocations
  interleave only at segment boundaries. A task is an invocation suspended at an
  \<^verbatim>\<open>await\<close>, with the local variables that its continuation reads; the console lines of the
  admissions and the page and fallback requests are kept as logs.

  The phases are the \<^verbatim>\<open>await\<close>s of the two crawlPage functions. Consecutive \<^verbatim>\<open>await\<close>s with no
  statement between them that reads or writes a module variable are one phase:
  \<^descr> \<open>Delaying\<close>: \<^verbatim>\<open>await new Promise((resolve) => setTimeout(resolve, RATE_LIMIT_DELAY))\<close>;
  \<^descr> \<open>Opening\<close>: \<^verbatim>\<open>await browser.newPage()\<close> in \<^verbatim>\<open>src/unnamed/part_000\<close>; \<^verbatim>\<open>await puppeteer.launch\<close>,
    \<^verbatim>\<open>browser.newPage\<close>, \<^verbatim>\<open>page.setUserAgent\<close> and \<^verbatim>\<open>page.setViewport\<close> in \<^verbatim>\<open>src/crawler.js\<close>;
  \<^descr> \<open>Fetching\<close>: \<^verbatim>\<open>await page.goto(currentUrl, ...)\<close> and \<^verbatim>\<open>await page.content()\<close> (with the
    two-second delay between them in \<^verbatim>\<open>src/crawler.js\<close>);
  \<^descr> \<open>Closing\<close>: \<^verbatim>\<open>await page.close()\<close> in the try block of \<^verbatim>\<open>src/unnamed/part_000\<close>;
  \<^descr> \<open>Evaluating\<close>: \<^verbatim>\<open>await page.$$eval("a[href]", ...)\<close> in \<^verbatim>\<open>src/crawler.js\<close>;
  \<^descr> \<open>Checking\<close>: \<^verbatim>\<open>await Promise.all(resourceChecks)\<close>;
  \<^descr> \<open>Auditing\<close>: \<^verbatim>\<open>await runLighthouseAnalysis(currentUrl)\<close> in \<^verbatim>\<open>src/crawler.js\<close>;
  \<^descr> \<open>Failing\<close>: \<^verbatim>\<open>await page.close()\<close> in the catch block of \<^verbatim>\<open>src/unnamed/part_000\<close>;
  \<^descr> \<open>FallingBack\<close>: \<^verbatim>\<open>await axios.get(currentUrl, ...)\<close> in the catch block of
    \<^verbatim>\<open>src/crawler.js\<close>.

  The \<^verbatim>\<open>finally\<close> block of \<^verbatim>\<open>src/crawler.js\<close> closes the browser and touches no module variable;
  it is left out. \<^verbatim>\<open>cheerio.load\<close> and the cheerio accessors are taken not to throw on the
  text of a document, so a segment runs to its end.
\<close>

datatype log_line = Crawling string nat
  \<comment> \<open>\<^verbatim>\<open>console.log(`Crawling: ${currentUrl} (${visited.size}/${MAX_PAGES})`)\<close>\<close>

definition crawling_url :: "log_line \<Rightarrow> string" where
  "crawling_url l = (case l of Crawling u n \<Rightarrow> u)"

definition crawling_size :: "log_line \<Rightarrow> nat" where
  "crawling_size l = (case l of Crawling u n \<Rightarrow> n)"

datatype request = PageGoto string | AxiosGet string

datatype phase =
    Delaying
  | Opening
  | Fetching
  | Closing page_doc
  | Evaluating page_doc
  | Checking
  | Auditing
  | Failing js_error
  | FallingBack

record sys =
  sess :: session
  queue :: "string list"
  console :: "log_line list"
  net :: "request list"
  tasks :: "(string \<times> phase) list"

definition phase_of :: "sys \<Rightarrow> string \<Rightarrow> phase option" where
  \<comment> \<open>where the invocation for a URL is suspended, \<open>None\<close> when there is none\<close>
  "phase_of y u = map_of (tasks y) u"

definition suspend :: "string \<Rightarrow> phase \<Rightarrow> sys \<Rightarrow> sys" where
  \<comment> \<open>the invocation for the URL reaches its next \<^verbatim>\<open>await\<close>\<close>
  "suspend u ph y = y\<lparr>tasks := AList.update u ph (tasks y)\<rparr>"

definition finish :: "string \<Rightarrow> sys \<Rightarrow> sys" where
  \<comment> \<open>the invocation for the URL returns\<close>
  "finish u y = y\<lparr>tasks := AList.delete u (tasks y)\<rparr>"

subsection \<open>Admission: the first segment of crawlPage\<close>

definition admit :: "nat \<Rightarrow> string \<Rightarrow> sys \<Rightarrow> sys option" where
  \<comment> \<open>\<^verbatim>\<open>if (visited.has(currentUrl) || visited.size >= MAX_PAGES) return;\<close>
      \<^verbatim>\<open>visited.add(currentUrl); pagesScanned++; performanceMetrics.pagesCrawled++;\<close>
      and the console line, up to the \<^verbatim>\<open>await\<close> of the rate-limit delay. \<open>None\<close> is the early
      return.\<close>
  "admit maxPages currentUrl y =
     (let s = sess y in
      if currentUrl |\<in>| visited s \<or> maxPages \<le> fcard (visited s) then None
      else
        let s' = s\<lparr>visited := finsert currentUrl (visited s),
                   pagesScanned := pagesScanned s + 1,
                   performanceMetrics :=
                     (performanceMetrics s)
                       \<lparr>pagesCrawled := pagesCrawled (performanceMetrics s) + 1\<rparr>\<rparr>
        in Some (y\<lparr>sess := s',
                   console := console y @ [Crawling currentUrl (fcard (visited s'))],
                   tasks := (currentUrl, Delaying) # tasks y\<rparr>))"

definition crawlPage_enter :: "url_api \<Rightarrow> string \<Rightarrow> sys \<Rightarrow> sys" where
  \<comment> \<open>\<^verbatim>\<open>src/unnamed/part_000\<close>: \<^verbatim>\<open>currentUrl = normalizeUrl(currentUrl)\<close> comes first\<close>
  "crawlPage_enter api currentUrl y =
     (case admit MAX_PAGES (normalizeUrl api currentUrl) y of None \<Rightarrow> y | Some y' \<Rightarrow> y')"

definition crawlPage_enter_crawler_js :: "string \<Rightarrow> sys \<Rightarrow> sys" where
  "crawlPage_enter_crawler_js currentUrl y =
     (case admit MAX_PAGES_crawler_js currentUrl y of None \<Rightarrow> y | Some y' \<Rightarrow> y')"

definition crawlPage_goto :: "string \<Rightarrow> sys \<Rightarrow> sys" where
  \<comment> \<open>the page is open: \<^verbatim>\<open>page.goto(currentUrl, ...)\<close> is issued\<close>
  "crawlPage_goto currentUrl y =
     suspend currentUrl Fetching (y\<lparr>net := net y @ [PageGoto currentUrl]\<rparr>)"

subsection \<open>Processing a loaded page\<close>

definition duplicate_content_detection :: "string \<Rightarrow> string \<Rightarrow> session \<Rightarrow> session" where
  \<comment> \<open>\<^verbatim>\<open>if (contentHashes.has(hash)) duplicateContentIssues.push({...})\<close>
      \<^verbatim>\<open>else { ... contentHashes.set(hash, currentUrl); }\<close>; the loop over the entries in the
      else branch has an empty effect\<close>
  "duplicate_content_detection currentUrl hash s =
     (case map_of (contentHashes s) hash of
        Some original \<Rightarrow>
          s\<lparr>duplicateContentIssues := duplicateContentIssues s @
               [\<lparr>dup_url = currentUrl, duplicateOf = original,
                 issue = ''Duplicate content detected''\<rparr>]\<rparr>
      | None \<Rightarrow> s\<lparr>contentHashes := AList.update hash currentUrl (contentHashes s)\<rparr>)"

definition content_audits :: "string \<Rightarrow> page_doc \<Rightarrow> session \<Rightarrow> session" where
  \<comment> \<open>from "Duplicate Content Detection" to the last push of "Enhanced Accessibility & SEO
      Audits"\<close>
  "content_audits currentUrl page s =
     (let s1 = duplicate_content_detection currentUrl (pg_hash page) s in
      s1\<lparr>accessibilityIssues := accessibilityIssues s1 @ pg_formHeadingIssues page,
         missingSeoIssues := missingSeoIssues s1 @ pg_missingSeo page\<rparr>)"

definition not_crawlable :: "string \<Rightarrow> bool" where
  \<comment> \<open>the guard of the link loop on the cleaned href\<close>
  "not_crawlable cleaned =
     (cleaned = [] \<or> startsWith cleaned ''mailto:'' \<or> startsWith cleaned ''tel:'' \<or>
      startsWith cleaned ''javascript:'' \<or> startsWith cleaned ''data:'' \<or>
      startsWith cleaned ''blob:'')"

definition full_href :: "url_api \<Rightarrow> string \<Rightarrow> string \<Rightarrow> string option" where
  \<comment> \<open>\<^verbatim>\<open>let fullHref = cleaned; if (!cleaned.startsWith("http")) { try { fullHref =\<close>
      \<^verbatim>\<open>new URL(cleaned, base).href; } catch (e) { return; } }\<close>\<close>
  "full_href api cleaned base =
     (if \<not> startsWith cleaned ''http'' then url_resolve api cleaned base else Some cleaned)"

definition process_link ::
  "url_api \<Rightarrow> nat \<Rightarrow> string \<Rightarrow> string \<Rightarrow> string \<Rightarrow> sys \<Rightarrow> string \<times> string \<Rightarrow> sys" where
  \<comment> \<open>the body of \<^verbatim>\<open>links.forEach(({ href, text }) => { ... })\<close>\<close>
  "process_link api maxPages base baseDomain currentUrl y a =
     (let cleaned = trim (split_hash_first (fst a)) in
      if not_crawlable cleaned then y
      else
        case full_href api cleaned base of
          None \<Rightarrow> y
        | Some fullHref \<Rightarrow>
            if startsWith fullHref base \<or> startsWith fullHref baseDomain then
              (if fcard (visited (sess y)) < maxPages then
                 (if fullHref |\<notin>| visited (sess y) \<and> fullHref \<notin> set (queue y)
                  then y\<lparr>queue := queue y @ [fullHref]\<rparr>
                  else y)
               else y)
            else if \<not> startsWith fullHref base \<and> \<not> startsWith fullHref baseDomain then
              y\<lparr>sess := (sess y)\<lparr>externalLinks :=
                     externalLinks (sess y) @ [FromTo currentUrl fullHref]\<rparr>\<rparr>
            else y)"

definition filter_links :: "(string \<times> string) list \<Rightarrow> (string \<times> string) list" where
  \<comment> \<open>\<^verbatim>\<open>.filter((item) => item.href && item.href.trim())\<close>\<close>
  "filter_links anchors = filter (\<lambda>a. fst a \<noteq> [] \<and> trim (fst a) \<noteq> []) anchors"

definition page_links :: "page_doc \<Rightarrow> (string \<times> string) list" where
  \<comment> \<open>\<^verbatim>\<open>src/unnamed/part_000\<close>: \<^verbatim>\<open>links = $("a[href]").map(...).get().filter(...)\<close>\<close>
  "page_links page = filter_links (pg_anchors page)"

definition process_links ::
  "url_api \<Rightarrow> nat \<Rightarrow> string \<Rightarrow> string \<Rightarrow> string \<Rightarrow> (string \<times> string) list \<Rightarrow> sys \<Rightarrow> sys" where
  \<comment> \<open>\<^verbatim>\<open>links.forEach(...)\<close>\<close>
  "process_links api maxPages base baseDomain currentUrl links y =
     foldl (process_link api maxPages base baseDomain currentUrl) y links"

definition extractLinks_each ::
  "url_api \<Rightarrow> string \<Rightarrow> string \<Rightarrow> ext_link list \<Rightarrow> string \<times> string \<Rightarrow> ext_link list" where
  \<comment> \<open>the body of the \<^verbatim>\<open>each\<close> of extractLinks, on its \<^verbatim>\<open>externalLinks\<close> array\<close>
  "extractLinks_each api currentUrl base acc a =
     (let href = trim (split_hash_first (fst a)); text = snd a in
      if href = [] \<or> startsWith href ''mailto:'' \<or> startsWith href ''tel:'' \<or>
         startsWith href ''javascript:''
      then acc
      else
        case full_href api href base of
          None \<Rightarrow> acc
        | Some fullHref \<Rightarrow>
            if startsWith fullHref base then acc
            else acc @ [LinkData currentUrl fullHref text (text \<noteq> [])
                          (startsWith fullHref base)])"

definition extractLinks :: "url_api \<Rightarrow> page_doc \<Rightarrow> string \<Rightarrow> string \<Rightarrow> ext_link list" where
  \<comment> \<open>the \<^verbatim>\<open>externalLinks\<close> component of the result, the only one crawlPage uses\<close>
  "extractLinks api page currentUrl base =
     foldl (extractLinks_each api currentUrl base) [] (pg_anchors page)"

definition missing_anchor_texts :: "string \<Rightarrow> page_doc \<Rightarrow> (string \<times> string) list" where
  \<comment> \<open>\<^verbatim>\<open>$("a").each(...)\<close>: an anchor with no href returns at \<^verbatim>\<open>!href\<close>\<close>
  "missing_anchor_texts currentUrl page =
     map (\<lambda>a. (currentUrl, trim (split_hash_first (fst a))))
       (filter (\<lambda>a. let href = trim (split_hash_first (fst a)) in
                  \<not> (href = [] \<or> startsWith href ''mailto:'' \<or> startsWith href ''tel:'') \<and>
                  snd a = [])
          (pg_anchors page))"

definition crawlPage_extract ::
  "url_api \<Rightarrow> nat \<Rightarrow> string \<Rightarrow> string \<Rightarrow> string \<Rightarrow> page_doc \<Rightarrow> (string \<times> string) list \<Rightarrow>
   sys \<Rightarrow> sys" where
  \<comment> \<open>from "Process links" to the start of the resource checks; \<open>links\<close> is the array that
      the loop runs over\<close>
  "crawlPage_extract api maxPages base baseDomain currentUrl page links y =
     (let y3 = process_links api maxPages base baseDomain currentUrl links y;
          s3 = sess y3
      in y3\<lparr>sess := s3
           \<lparr>metaTags := metaTags s3 @ pg_metaTags page,
            ogTags := ogTags s3 @ pg_ogTags page,
            seoInsights := seoInsights s3 @ [pg_seoInsight page],
            metaTagAudit := metaTagAudit s3 @ [pg_metaTagAudit page],
            technicalSeo := technicalSeo s3 @ [pg_technicalSeo page],
            imageAlts := imageAlts s3 @ pg_imageAlts page,
            accessibilityIssues := accessibilityIssues s3 @ pg_imageIssues page,
            externalLinks := externalLinks s3 @ extractLinks api page currentUrl base,
            missingAnchorTexts := missingAnchorTexts s3 @ missing_anchor_texts currentUrl page,
            structuredData := structuredData s3 @ pg_structuredData page,
            keywordStats := keywordStats s3 @ pg_keywordStats page\<rparr>\<rparr>)"

definition crawlPage_process ::
  "url_api \<Rightarrow> string \<Rightarrow> string \<Rightarrow> string \<Rightarrow> page_doc \<Rightarrow> sys \<Rightarrow> sys" where
  \<comment> \<open>\<^verbatim>\<open>src/unnamed/part_000\<close>: the try block from \<^verbatim>\<open>await page.close()\<close> to
      \<^verbatim>\<open>await Promise.all(resourceChecks)\<close>; the links are read from the document\<close>
  "crawlPage_process api base baseDomain currentUrl page y =
     crawlPage_extract api MAX_PAGES base baseDomain currentUrl page (page_links page)
       (y\<lparr>sess := content_audits currentUrl page (sess y)\<rparr>)"

definition resource_failed :: "row \<Rightarrow> session \<Rightarrow> session" where
  \<comment> \<open>the \<^verbatim>\<open>catch\<close> handler of one \<^verbatim>\<open>axios.head\<close> of the resource checks\<close>
  "resource_failed r s = s\<lparr>brokenResources := brokenResources s @ [r]\<rparr>"

definition js_divide :: "nat \<Rightarrow> nat \<Rightarrow> js_number" where
  \<comment> \<open>\<^verbatim>\<open>a / b\<close> on numbers; the quotient is not evaluated\<close>
  "js_divide a b = Quotient a b"

definition update_metrics :: "nat \<Rightarrow> session \<Rightarrow> session" where
  \<comment> \<open>"Update performance metrics"; \<open>elapsed\<close> is \<^verbatim>\<open>Date.now() - pageStartTime\<close>\<close>
  "update_metrics elapsed s =
     (let p = performanceMetrics s; total = totalResponseTime p + elapsed in
      s\<lparr>performanceMetrics :=
           p\<lparr>totalResponseTime := total,
             averageResponseTime := js_divide total (pagesCrawled p)\<rparr>\<rparr>)"

definition mark_working :: "string \<Rightarrow> status \<Rightarrow> session \<Rightarrow> session" where
  "mark_working currentUrl st s =
     s\<lparr>workingLinks := workingLinks s @ [\<lparr>lr_url = currentUrl, lr_status = st\<rparr>]\<rparr>"

definition mark_broken :: "string \<Rightarrow> status \<Rightarrow> session \<Rightarrow> session" where
  "mark_broken currentUrl st s =
     s\<lparr>brokenLinks := brokenLinks s @ [\<lparr>lr_url = currentUrl, lr_status = st\<rparr>]\<rparr>"

definition crawlPage_complete :: "string \<Rightarrow> nat \<Rightarrow> sys \<Rightarrow> sys" where
  \<comment> \<open>\<^verbatim>\<open>src/unnamed/part_000\<close>: from "Update performance metrics" to the end of the try block\<close>
  "crawlPage_complete currentUrl elapsed y =
     finish currentUrl
       (y\<lparr>sess := mark_working currentUrl (StatusCode 200) (update_metrics elapsed (sess y))\<rparr>)"

definition crawlPage_complete_crawler_js :: "string \<Rightarrow> string \<Rightarrow> nat \<Rightarrow> sys \<Rightarrow> sys" where
  \<comment> \<open>\<^verbatim>\<open>src/crawler.js\<close>: the main page goes on to \<^verbatim>\<open>await runLighthouseAnalysis(currentUrl)\<close>\<close>
  "crawlPage_complete_crawler_js currentUrl mainPageUrl elapsed y =
     (let y1 = y\<lparr>sess := update_metrics elapsed (sess y)\<rparr> in
      if currentUrl = mainPageUrl then suspend currentUrl Auditing y1
      else finish currentUrl (y1\<lparr>sess := mark_working currentUrl (StatusCode 200) (sess y1)\<rparr>))"

definition run_lighthouse :: "string \<Rightarrow> row \<Rightarrow> row \<Rightarrow> sys \<Rightarrow> sys" where
  \<comment> \<open>\<^verbatim>\<open>src/crawler.js\<close>: \<^verbatim>\<open>pagePerformanceMetrics.push(lighthouseResults);\<close>
      \<^verbatim>\<open>webCoreVitals.push({...});\<close> and the end of the try block\<close>
  "run_lighthouse currentUrl results vitals y =
     (let s = sess y;
          s1 = s\<lparr>pagePerformanceMetrics := pagePerformanceMetrics s @ [results],
                 webCoreVitals := webCoreVitals s @ [vitals]\<rparr>
      in finish currentUrl (y\<lparr>sess := mark_working currentUrl (StatusCode 200) s1\<rparr>))"

subsection \<open>The catch blocks\<close>

definition crawlPage_catch :: "string \<Rightarrow> js_error \<Rightarrow> sys \<Rightarrow> sys" where
  \<comment> \<open>\<^verbatim>\<open>src/unnamed/part_000\<close>: \<^verbatim>\<open>brokenLinks.push({ url: currentUrl, status: err.message })\<close>,
      the last statement of the catch block; no other request is made\<close>
  "crawlPage_catch currentUrl err y =
     finish currentUrl
       (y\<lparr>sess := mark_broken currentUrl (StatusText (err_message err)) (sess y)\<rparr>)"

definition error_status :: "js_error \<Rightarrow> status" where
  \<comment> \<open>\<^verbatim>\<open>err.response?.status || err.code || err.message || "Unknown Error"\<close>\<close>
  "error_status err =
     (case err_response_status err of
        Some n \<Rightarrow> if n \<noteq> 0 then StatusCode n
                  else (case err_code err of
                          Some c \<Rightarrow> if c \<noteq> [] then StatusText c
                                    else if err_message err \<noteq> [] then StatusText (err_message err)
                                    else StatusText ''Unknown Error''
                        | None \<Rightarrow> if err_message err \<noteq> [] then StatusText (err_message err)
                                  else StatusText ''Unknown Error'')
      | None \<Rightarrow> (case err_code err of
                   Some c \<Rightarrow> if c \<noteq> [] then StatusText c
                             else if err_message err \<noteq> [] then StatusText (err_message err)
                             else StatusText ''Unknown Error''
                 | None \<Rightarrow> if err_message err \<noteq> [] then StatusText (err_message err)
                           else StatusText ''Unknown Error''))"

definition crawlPage_catch_crawler_js :: "string \<Rightarrow> js_error \<Rightarrow> sys \<Rightarrow> sys" where
  \<comment> \<open>\<^verbatim>\<open>src/crawler.js\<close>: \<^verbatim>\<open>performanceMetrics.errors++\<close>, the push to \<^verbatim>\<open>brokenLinks\<close>, and the
      fallback request \<^verbatim>\<open>axios.get(currentUrl, ...)\<close>\<close>
  "crawlPage_catch_crawler_js currentUrl err y =
     (let s = sess y;
          s1 = s\<lparr>performanceMetrics :=
                   (performanceMetrics s)\<lparr>errors := errors (performanceMetrics s) + 1\<rparr>\<rparr>
      in suspend currentUrl FallingBack
           (y\<lparr>sess := mark_broken currentUrl (error_status err) s1,
              net := net y @ [AxiosGet currentUrl]\<rparr>))"

definition fallback_success :: "string \<Rightarrow> nat \<Rightarrow> page_doc \<Rightarrow> sys \<Rightarrow> sys" where
  \<comment> \<open>\<^verbatim>\<open>src/crawler.js\<close>: the inner try block once \<^verbatim>\<open>axios.get\<close> has resolved\<close>
  "fallback_success currentUrl st page y =
     (let s1 = mark_working currentUrl (StatusCode st) (sess y) in
      finish currentUrl
        (y\<lparr>sess := s1\<lparr>metaTags := metaTags s1 @ pg_metaTags page,
                      ogTags := ogTags s1 @ pg_ogTags page,
                      seoInsights := seoInsights s1 @ [pg_seoInsight page]\<rparr>\<rparr>))"

subsection \<open>Events and interleavings\<close>

text \<open>
  An event is the settling of the promise that one invocation awaits, or a new invocation.
  An event that finds no invocation for its URL at the matching \<^verbatim>\<open>await\<close> does not occur in
  the program; the step function leaves the state as it is there. The delay of
  \<open>Delaying\<close>, \<^verbatim>\<open>Promise.all\<close> over the resource checks (each with its own \<^verbatim>\<open>catch\<close> handler) and
  runLighthouseAnalysis (whose body is one try block that returns in its \<^verbatim>\<open>catch\<close>) do not
  reject.
\<close>

datatype event =
    Invoke string
    \<comment> \<open>some caller invokes crawlPage with this URL\<close>
  | Wake string
    \<comment> \<open>the rate-limit delay is over\<close>
  | Opened string
    \<comment> \<open>the awaits of \<open>Opening\<close> have resolved\<close>
  | Loaded string page_doc
    \<comment> \<open>\<^verbatim>\<open>page.content()\<close> has resolved\<close>
  | Closed string
    \<comment> \<open>\<^verbatim>\<open>src/unnamed/part_000\<close>: \<^verbatim>\<open>page.close()\<close> has resolved in the try block, or has settled
        in the catch block, where its rejection is swallowed\<close>
  | Evaluated string "(string \<times> string) list"
    \<comment> \<open>\<^verbatim>\<open>src/crawler.js\<close>: \<^verbatim>\<open>page.$$eval\<close> has resolved, with the href and the trimmed text of
        the \<^verbatim>\<open>a[href]\<close> elements\<close>
  | ResourceFailed string row
    \<comment> \<open>one \<^verbatim>\<open>axios.head\<close> of the resource checks of this page has rejected\<close>
  | Checked string nat
    \<comment> \<open>\<^verbatim>\<open>Promise.all(resourceChecks)\<close> has resolved; the number is the time since
        \<^verbatim>\<open>pageStartTime\<close>\<close>
  | Audited string row row
    \<comment> \<open>\<^verbatim>\<open>src/crawler.js\<close>: runLighthouseAnalysis has returned\<close>
  | Threw string js_error
    \<comment> \<open>the promise awaited in the try block has rejected\<close>
  | FallbackOk string nat page_doc
    \<comment> \<open>\<^verbatim>\<open>src/crawler.js\<close>: the fallback \<^verbatim>\<open>axios.get\<close> has resolved with this status\<close>
  | FallbackThrew string
    \<comment> \<open>\<^verbatim>\<open>src/crawler.js\<close>: the fallback \<^verbatim>\<open>axios.get\<close> has rejected\<close>

datatype source_file = Part_000 | Crawler_js

record crawl_args =
  arg_base :: string
  arg_mainPageUrl :: string
  arg_baseDomain :: string

definition crawlPage_threw :: "string \<Rightarrow> js_error \<Rightarrow> sys \<Rightarrow> sys" where
  \<comment> \<open>\<^verbatim>\<open>src/unnamed/part_000\<close>: control enters the catch block.
      \<^verbatim>\<open>if (page) { try { await page.close(); } catch {} }\<close>: \<^verbatim>\<open>page\<close> is null when
      \<^verbatim>\<open>browser.newPage()\<close> has rejected\<close>
  "crawlPage_threw currentUrl err y =
     (case phase_of y currentUrl of
        Some Opening \<Rightarrow> crawlPage_catch currentUrl err y
      | Some Fetching \<Rightarrow> suspend currentUrl (Failing err) y
      | Some (Closing page) \<Rightarrow> suspend currentUrl (Failing err) y
      | _ \<Rightarrow> y)"

definition crawlPage_threw_crawler_js :: "string \<Rightarrow> js_error \<Rightarrow> sys \<Rightarrow> sys" where
  \<comment> \<open>\<^verbatim>\<open>src/crawler.js\<close>: control enters the catch block\<close>
  "crawlPage_threw_crawler_js currentUrl err y =
     (case phase_of y currentUrl of
        Some Opening \<Rightarrow> crawlPage_catch_crawler_js currentUrl err y
      | Some Fetching \<Rightarrow> crawlPage_catch_crawler_js currentUrl err y
      | Some (Evaluating page) \<Rightarrow> crawlPage_catch_crawler_js currentUrl err y
      | _ \<Rightarrow> y)"

definition step :: "source_file \<Rightarrow> url_api \<Rightarrow> crawl_args \<Rightarrow> sys \<Rightarrow> event \<Rightarrow> sys" where
  "step f api args y e =
     (case e of
        Invoke u \<Rightarrow>
          (case f of
             Part_000 \<Rightarrow> crawlPage_enter api u y
           | Crawler_js \<Rightarrow> crawlPage_enter_crawler_js u y)
      | Wake u \<Rightarrow>
          (case phase_of y u of Some Delaying \<Rightarrow> suspend u Opening y | _ \<Rightarrow> y)
      | Opened u \<Rightarrow>
          (case phase_of y u of Some Opening \<Rightarrow> crawlPage_goto u y | _ \<Rightarrow> y)
      | Loaded u page \<Rightarrow>
          (case phase_of y u of
             Some Fetching \<Rightarrow>
               (case f of
                  Part_000 \<Rightarrow> suspend u (Closing page) y
                | Crawler_js \<Rightarrow>
                    suspend u (Evaluating page) (y\<lparr>sess := content_audits u page (sess y)\<rparr>))
           | _ \<Rightarrow> y)
      | Closed u \<Rightarrow>
          (case f of
             Part_000 \<Rightarrow>
               (case phase_of y u of
                  Some (Closing page) \<Rightarrow>
                    suspend u Checking
                      (crawlPage_process api (arg_base args) (arg_baseDomain args) u page y)
                | Some (Failing err) \<Rightarrow> crawlPage_catch u err y
                | _ \<Rightarrow> y)
           | Crawler_js \<Rightarrow> y)
      | Evaluated u anchors \<Rightarrow>
          (case f of
             Part_000 \<Rightarrow> y
           | Crawler_js \<Rightarrow>
               (case phase_of y u of
                  Some (Evaluating page) \<Rightarrow>
                    suspend u Checking
                      (crawlPage_extract api MAX_PAGES_crawler_js (arg_base args)
                         (arg_baseDomain args) u page (filter_links anchors) y)
                | _ \<Rightarrow> y))
      | ResourceFailed u r \<Rightarrow>
          (case phase_of y u of
             Some Checking \<Rightarrow> y\<lparr>sess := resource_failed r (sess y)\<rparr>
           | _ \<Rightarrow> y)
      | Checked u elapsed \<Rightarrow>
          (case phase_of y u of
             Some Checking \<Rightarrow>
               (case f of
                  Part_000 \<Rightarrow> crawlPage_complete u elapsed y
                | Crawler_js \<Rightarrow>
                    crawlPage_complete_crawler_js u (arg_mainPageUrl args) elapsed y)
           | _ \<Rightarrow> y)
      | Audited u results vitals \<Rightarrow>
          (case f of
             Part_000 \<Rightarrow> y
           | Crawler_js \<Rightarrow>
               (case phase_of y u of
                  Some Auditing \<Rightarrow> run_lighthouse u results vitals y
                | _ \<Rightarrow> y))
      | Threw u err \<Rightarrow>
          (case f of
             Part_000 \<Rightarrow> crawlPage_threw u err y
           | Crawler_js \<Rightarrow> crawlPage_threw_crawler_js u err y)
      | FallbackOk u st page \<Rightarrow>
          (case f of
             Part_000 \<Rightarrow> y
           | Crawler_js \<Rightarrow>
               (case phase_of y u of
                  Some FallingBack \<Rightarrow> fallback_success u st page y
                | _ \<Rightarrow> y))
      | FallbackThrew u \<Rightarrow>
          (case f of
             Part_000 \<Rightarrow> y
           | Crawler_js \<Rightarrow>
               (case phase_of y u of Some FallingBack \<Rightarrow> finish u y | _ \<Rightarrow> y)))"

definition max_pages :: "source_file \<Rightarrow> nat" where
  "max_pages f = (case f of Part_000 \<Rightarrow> MAX_PAGES | Crawler_js \<Rightarrow> MAX_PAGES_crawler_js)"

definition exec :: "source_file \<Rightarrow> url_api \<Rightarrow> crawl_args \<Rightarrow> sys \<Rightarrow> event list \<Rightarrow> sys" where
  "exec f api args y es = foldl (step f api args) y es"

definition runCrawl_args :: "url_api \<Rightarrow> string \<Rightarrow> crawl_args option" where
  \<comment> \<open>\<^verbatim>\<open>const base = targetUrl.endsWith("/") ? targetUrl : targetUrl + "/";\<close>
      \<^verbatim>\<open>const baseDomain = new URL(targetUrl).origin;\<close> and the call
      \<^verbatim>\<open>crawlPage(url, queue, base, base, baseDomain, browser)\<close>; \<open>None\<close> when the constructor
      throws and runCrawl rejects\<close>
  "runCrawl_args api targetUrl =
     (let base = (if endsWith targetUrl ''/'' then targetUrl else targetUrl @ ''/'') in
      case url_origin api targetUrl of
        None \<Rightarrow> None
      | Some origin \<Rightarrow>
          Some \<lparr>arg_base = base, arg_mainPageUrl = base, arg_baseDomain = origin\<rparr>)"

definition run_start :: "nat \<Rightarrow> string list \<Rightarrow> session \<Rightarrow> sys" where
  \<comment> \<open>a run begins: the reset block on whatever the module variables hold, a fresh queue,
      no invocation of crawlPage under way\<close>
  "run_start now q s =
     \<lparr>sess = runCrawl_reset now s, queue = q, console = [], net = [], tasks = []\<rparr>"

subsection \<open>One invocation run to its end\<close>

text \<open>
  What the outside world answers to one invocation, by URL: whether the page opens,
  what \<^verbatim>\<open>page.goto\<close> and \<^verbatim>\<open>page.content()\<close> give, whether \<^verbatim>\<open>page.close()\<close> and \<^verbatim>\<open>page.$$eval\<close> succeed,
  which resource checks fail, the clock, the Lighthouse report and the answer to the
  fallback request. With no other invocation interleaved, an invocation is the run of the
  events that these answers determine.
\<close>

record fetch_env =
  open_page :: "string \<Rightarrow> js_error option"
  render :: "string \<Rightarrow> js_error + page_doc"
  close_page :: "string \<Rightarrow> js_error option"
  eval_links :: "string \<Rightarrow> js_error + (string \<times> string) list"
  failed_checks :: "string \<Rightarrow> row list"
  elapsed :: "string \<Rightarrow> nat"
  lighthouse :: "string \<Rightarrow> row \<times> row"
  http_get :: "string \<Rightarrow> js_error + nat \<times> page_doc"

definition crawlPage_events :: "fetch_env \<Rightarrow> string \<Rightarrow> event list" where
  \<comment> \<open>\<^verbatim>\<open>src/unnamed/part_000\<close>, after the admission\<close>
  "crawlPage_events env u =
     Wake u #
     (case open_page env u of
        Some err \<Rightarrow> [Threw u err]
      | None \<Rightarrow>
          Opened u #
          (case render env u of
             Inl err \<Rightarrow> [Threw u err, Closed u]
           | Inr page \<Rightarrow>
               Loaded u page #
               (case close_page env u of
                  Some err \<Rightarrow> [Threw u err, Closed u]
                | None \<Rightarrow>
                    Closed u # map (ResourceFailed u) (failed_checks env u) @
                    [Checked u (elapsed env u)])))"

definition fallback_events :: "fetch_env \<Rightarrow> string \<Rightarrow> js_error \<Rightarrow> event list" where
  \<comment> \<open>\<^verbatim>\<open>src/crawler.js\<close>: the try block rejects, the fallback request is answered\<close>
  "fallback_events env u err =
     [Threw u err,
      case http_get env u of
        Inr r \<Rightarrow> FallbackOk u (fst r) (snd r)
      | Inl e \<Rightarrow> FallbackThrew u]"

definition crawlPage_events_crawler_js :: "fetch_env \<Rightarrow> string \<Rightarrow> string \<Rightarrow> event list" where
  \<comment> \<open>\<^verbatim>\<open>src/crawler.js\<close>, after the admission\<close>
  "crawlPage_events_crawler_js env mainPageUrl u =
     Wake u #
     (case open_page env u of
        Some err \<Rightarrow> fallback_events env u err
      | None \<Rightarrow>
          Opened u #
          (case render env u of
             Inl err \<Rightarrow> fallback_events env u err
           | Inr page \<Rightarrow>
               Loaded u page #
               (case eval_links env u of
                  Inl err \<Rightarrow> fallback_events env u err
                | Inr anchors \<Rightarrow>
                    Evaluated u anchors # map (ResourceFailed u) (failed_checks env u) @
                    Checked u (elapsed env u) #
                    (if u = mainPageUrl
                     then [Audited u (fst (lighthouse env u)) (snd (lighthouse env u))]
                     else []))))"

definition crawlPage :: "url_api \<Rightarrow> fetch_env \<Rightarrow> crawl_args \<Rightarrow> string \<Rightarrow> sys \<Rightarrow> sys" where
  \<comment> \<open>\<^verbatim>\<open>src/unnamed/part_000\<close>, with no other invocation interleaved\<close>
  "crawlPage api env args currentUrl y =
     (let u = normalizeUrl api currentUrl in
      case admit MAX_PAGES u y of
        None \<Rightarrow> y
      | Some y1 \<Rightarrow> exec Part_000 api args y1 (crawlPage_events env u))"

definition crawlPage_crawler_js ::
  "url_api \<Rightarrow> fetch_env \<Rightarrow> crawl_args \<Rightarrow> string \<Rightarrow> sys \<Rightarrow> sys" where
  \<comment> \<open>\<^verbatim>\<open>src/crawler.js\<close>, with no other invocation interleaved\<close>
  "crawlPage_crawler_js api env args u y =
     (case admit MAX_PAGES_crawler_js u y of
        None \<Rightarrow> y
      | Some y1 \<Rightarrow>
          exec Crawler_js api args y1
            (crawlPage_events_crawler_js env (arg_mainPageUrl args) u))"


section \<open>The sitemap resolver\<close>

text \<open>
  What \<^verbatim>\<open>axios.get\<close> followed by \<^verbatim>\<open>xml2js.parseStringPromise\<close> gives for a sitemap URL: a
  \<^verbatim>\<open>urlset\<close> with its \<^verbatim>\<open>url\<close> entries, a \<^verbatim>\<open>sitemapindex\<close> with its \<^verbatim>\<open>sitemap\<close> entries, or some
  other document. An entry is the first \<^verbatim>\<open>loc\<close> of the element, \<open>None\<close> when the element has
  no \<^verbatim>\<open>loc\<close> child (then \<^verbatim>\<open>u.loc[0]\<close> throws a TypeError). A URL with no document in the table
  is one whose request or parse fails.
\<close>

datatype sitemap_doc =
    Urlset "string option list"
  | SitemapIndex "string option list"
  | OtherDocument

type_synonym web = "(string \<times> sitemap_doc) list"

datatype js_exception = TypeError

definition urlset_locs :: "string option list \<Rightarrow> js_exception + string list" where
  \<comment> \<open>\<^verbatim>\<open>parsed.urlset.url.map((u) => u.loc[0])\<close>\<close>
  "urlset_locs us = (if None \<in> set us then Inl TypeError else Inr (map the us))"

text \<open>
  The recursion carries fuel: \<open>None\<close> is a run that has not returned within it. The set
  \<open>seen\<close> is mutated in place in the source, so it is returned with the result; the
  \<^verbatim>\<open>catch\<close> returns the empty array and leaves \<open>seen\<close> as it is at the throw.
\<close>

fun getSitemapUrls ::
    "nat \<Rightarrow> web \<Rightarrow> string \<Rightarrow> string fset \<Rightarrow> (string list \<times> string fset) option"
  and sitemap_loop ::
    "nat \<Rightarrow> web \<Rightarrow> string option list \<Rightarrow> string fset \<Rightarrow> string list \<Rightarrow>
     ((js_exception + string list) \<times> string fset) option"
where
  "getSitemapUrls 0 w sitemapUrl seen = None"
| "getSitemapUrls (Suc n) w sitemapUrl seen =
     (if sitemapUrl |\<in>| seen then Some ([], seen)
      else
        let seen1 = finsert sitemapUrl seen in
        case map_of w sitemapUrl of
          None \<Rightarrow> Some ([], seen1)
        | Some OtherDocument \<Rightarrow> Some ([], seen1)
        | Some (Urlset us) \<Rightarrow>
            (case urlset_locs us of
               Inl e \<Rightarrow> Some ([], seen1)
             | Inr urls \<Rightarrow> Some (urls, seen1))
        | Some (SitemapIndex sms) \<Rightarrow>
            (case sitemap_loop n w sms seen1 [] of
               None \<Rightarrow> None
             | Some (Inl e, seen2) \<Rightarrow> Some ([], seen2)
             | Some (Inr urls, seen2) \<Rightarrow> Some (urls, seen2)))"
| "sitemap_loop n w [] seen urls = Some (Inr urls, seen)"
| "sitemap_loop n w (sm # sms) seen urls =
     (case sm of
        None \<Rightarrow> Some (Inl TypeError, seen)
      | Some loc \<Rightarrow>
          (case getSitemapUrls n w loc seen of
             None \<Rightarrow> None
           | Some (subUrls, seen') \<Rightarrow> sitemap_loop n w sms seen' (urls @ subUrls)))"

section \<open>Invariants of a run\<close>

text \<open>
  The invariants speak of the visited set, the admission counter, the logs, the suspended
  invocations, the two link lists and the error counter. Every step of the system changes
  this part of the state in one of nine ways.
\<close>

record core =
  c_visited :: "string fset"
  c_count :: nat
  c_console :: "log_line list"
  c_net :: "request list"
  c_tasks :: "(string \<times> phase) list"
  c_working :: "link_record list"
  c_broken :: "link_record list"
  c_errors :: nat

definition core_of :: "sys \<Rightarrow> core" where
  "core_of y =
     \<lparr>c_visited = visited (sess y), c_count = pagesScanned (sess y), c_console = console y,
      c_net = net y, c_tasks = tasks y, c_working = workingLinks (sess y),
      c_broken = brokenLinks (sess y), c_errors = errors (performanceMetrics (sess y))\<rparr>"

definition in_page :: "phase \<Rightarrow> bool" where
  \<comment> \<open>the page request is sent and control is in the try block\<close>
  "in_page ph =
     (case ph of
        Fetching \<Rightarrow> True | Closing p \<Rightarrow> True | Evaluating p \<Rightarrow> True | Checking \<Rightarrow> True
      | Auditing \<Rightarrow> True | _ \<Rightarrow> False)"

inductive moves :: "source_file \<Rightarrow> core \<Rightarrow> core \<Rightarrow> bool" for f :: source_file where
  stay: "moves f c c"
| admitted:
    "u |\<notin>| c_visited c \<Longrightarrow> fcard (c_visited c) < max_pages f \<Longrightarrow>
     moves f c
       (c\<lparr>c_visited := finsert u (c_visited c), c_count := c_count c + 1,
          c_console := c_console c @ [Crawling u (Suc (fcard (c_visited c)))],
          c_tasks := (u, Delaying) # c_tasks c\<rparr>)"
| woke:
    "map_of (c_tasks c) u = Some Delaying \<Longrightarrow>
     moves f c (c\<lparr>c_tasks := AList.update u Opening (c_tasks c)\<rparr>)"
| went:
    "map_of (c_tasks c) u = Some Opening \<Longrightarrow>
     moves f c
       (c\<lparr>c_net := c_net c @ [PageGoto u], c_tasks := AList.update u Fetching (c_tasks c)\<rparr>)"
| advanced:
    "map_of (c_tasks c) u = Some ph \<Longrightarrow> in_page ph \<Longrightarrow>
     in_page ph' \<or> (f = Part_000 \<and> ph' = Failing err) \<Longrightarrow>
     moves f c (c\<lparr>c_tasks := AList.update u ph' (c_tasks c)\<rparr>)"
| worked:
    "map_of (c_tasks c) u = Some ph \<Longrightarrow>
     moves f c
       (c\<lparr>c_tasks := AList.delete u (c_tasks c),
          c_working := c_working c @ [\<lparr>lr_url = u, lr_status = st\<rparr>]\<rparr>)"
| broke:
    "f = Part_000 \<Longrightarrow> map_of (c_tasks c) u = Some ph \<Longrightarrow>
     moves f c
       (c\<lparr>c_tasks := AList.delete u (c_tasks c),
          c_broken := c_broken c @ [\<lparr>lr_url = u, lr_status = st\<rparr>]\<rparr>)"
| fell:
    "f = Crawler_js \<Longrightarrow> map_of (c_tasks c) u = Some ph \<Longrightarrow> ph = Opening \<or> in_page ph \<Longrightarrow>
     moves f c
       (c\<lparr>c_net := c_net c @ [AxiosGet u],
          c_tasks := AList.update u FallingBack (c_tasks c),
          c_broken := c_broken c @ [\<lparr>lr_url = u, lr_status = st\<rparr>],
          c_errors := c_errors c + 1\<rparr>)"
| dropped:
    "map_of (c_tasks c) u = Some FallingBack \<Longrightarrow>
     moves f c (c\<lparr>c_tasks := AList.delete u (c_tasks c)\<rparr>)"

definition tasks_inv :: "core \<Rightarrow> bool" where
  \<comment> \<open>one suspended invocation at most for a URL, and only for visited URLs\<close>
  "tasks_inv c =
     (distinct (map fst (c_tasks c)) \<and> fst ` set (c_tasks c) \<subseteq> fset (c_visited c))"

definition console_inv :: "core \<Rightarrow> bool" where
  \<comment> \<open>the console has one line for each admission, and the visited set is their URLs\<close>
  "console_inv c =
     (distinct (map crawling_url (c_console c)) \<and>
      fset_of_list (map crawling_url (c_console c)) = c_visited c \<and>
      c_count c = length (c_console c))"

definition budget_inv :: "source_file \<Rightarrow> core \<Rightarrow> bool" where
  \<comment> \<open>the visited set and the sizes that the admissions have logged are within the budget\<close>
  "budget_inv f c =
     (fcard (c_visited c) \<le> max_pages f \<and>
      (\<forall>l \<in> set (c_console c). crawling_size l \<le> max_pages f))"

definition net_inv :: "core \<Rightarrow> bool" where
  \<comment> \<open>no request is sent twice; a URL that has not reached \<^verbatim>\<open>page.goto\<close> has no page request;
      a URL whose fallback was requested has left the try block\<close>
  "net_inv c =
     (distinct (c_net c) \<and>
      (\<forall>u. PageGoto u \<in> set (c_net c) \<longrightarrow>
         u |\<in>| c_visited c \<and> map_of (c_tasks c) u \<noteq> Some Delaying \<and>
         map_of (c_tasks c) u \<noteq> Some Opening) \<and>
      (\<forall>u. AxiosGet u \<in> set (c_net c) \<longrightarrow>
         u |\<in>| c_visited c \<and>
         (map_of (c_tasks c) u = None \<or> map_of (c_tasks c) u = Some FallingBack)))"

definition records_inv :: "source_file \<Rightarrow> core \<Rightarrow> bool" where
  \<comment> \<open>a URL has one working-link record at most and one broken-link record at most, pushed
      when its invocation has left the corresponding block\<close>
  "records_inv f c =
     (distinct (map lr_url (c_working c)) \<and>
      distinct (map lr_url (c_broken c)) \<and>
      (\<forall>r \<in> set (c_working c).
         lr_url r |\<in>| c_visited c \<and> map_of (c_tasks c) (lr_url r) = None) \<and>
      (\<forall>r \<in> set (c_broken c).
         lr_url r |\<in>| c_visited c \<and>
         (map_of (c_tasks c) (lr_url r) = None \<or>
          f = Crawler_js \<and> map_of (c_tasks c) (lr_url r) = Some FallingBack)) \<and>
      (f = Crawler_js \<or>
       lr_url ` set (c_working c) \<inter> lr_url ` set (c_broken c) = {}))"

definition is_fallback :: "request \<Rightarrow> bool" where
  "is_fallback r = (case r of PageGoto u \<Rightarrow> False | AxiosGet u \<Rightarrow> True)"

definition fallback_inv :: "source_file \<Rightarrow> core \<Rightarrow> bool" where
  \<comment> \<open>the number of fallback requests sent is \<^verbatim>\<open>performanceMetrics.errors\<close>, which the catch
      block of \<^verbatim>\<open>src/crawler.js\<close> increments; \<^verbatim>\<open>src/unnamed/part_000\<close> has sent none\<close>
  "fallback_inv f c =
     (length (filter is_fallback (c_net c)) = c_errors c \<and>
      (f = Part_000 \<longrightarrow> (\<forall>u. AxiosGet u \<notin> set (c_net c))))"

definition run_inv :: "source_file \<Rightarrow> core \<Rightarrow> bool" where
  \<comment> \<open>what holds at every point of a run of either source file\<close>
  "run_inv f c =
     (tasks_inv c \<and> console_inv c \<and> budget_inv f c \<and> net_inv c \<and> records_inv f c \<and>
      fallback_inv f c)"

definition visited_normalized :: "url_api \<Rightarrow> sys \<Rightarrow> bool" where
  \<comment> \<open>every visited URL is one that normalizeUrl returns unchanged\<close>
  "visited_normalized api y = (\<forall>v. v |\<in>| visited (sess y) \<longrightarrow> normalizeUrl api v = v)"

section \<open>An invocation up to its resource checks\<close>

definition page_processed ::
  "url_api \<Rightarrow> crawl_args \<Rightarrow> string \<Rightarrow> page_doc \<Rightarrow> sys \<Rightarrow> sys" where
  \<comment> \<open>\<^verbatim>\<open>src/unnamed/part_000\<close>: the state in which an admitted invocation that has loaded and
      closed its page awaits its resource checks, \<open>y1\<close> being the state after the admission\<close>
  "page_processed api args n page y1 =
     suspend n Checking
       (crawlPage_process api (arg_base args) (arg_baseDomain args) n page
          (suspend n (Closing page) (crawlPage_goto n (suspend n Opening y1))))"

definition page_processed_crawler_js ::
  "url_api \<Rightarrow> crawl_args \<Rightarrow> string \<Rightarrow> page_doc \<Rightarrow> (string \<times> string) list \<Rightarrow> sys \<Rightarrow> sys" where
  \<comment> \<open>\<^verbatim>\<open>src/crawler.js\<close>: the same, \<open>anchors\<close> being what \<^verbatim>\<open>page.$$eval\<close> has returned\<close>
  "page_processed_crawler_js api args u page anchors y1 =
     suspend u Checking
       (crawlPage_extract api MAX_PAGES_crawler_js (arg_base args) (arg_baseDomain args) u page
          (filter_links anchors)
          (suspend u (Evaluating page)
             ((crawlPage_goto u (suspend u Opening y1))
                \<lparr>sess := content_audits u page
                           (sess (crawlPage_goto u (suspend u Opening y1)))\<rparr>)))"

section \<open>The link loop, component by component\<close>

definition enqueue_link ::
  "url_api \<Rightarrow> nat \<Rightarrow> string \<Rightarrow> string \<Rightarrow> string fset \<Rightarrow> string list \<Rightarrow> string \<times> string \<Rightarrow>
   string list" where
  \<comment> \<open>what one round of the link loop does to the queue, the visited set being \<open>V\<close>\<close>
  "enqueue_link api maxPages base baseDomain V q a =
     (let cleaned = trim (split_hash_first (fst a)) in
      if not_crawlable cleaned then q
      else
        case full_href api cleaned base of
          None \<Rightarrow> q
        | Some fullHref \<Rightarrow>
            if (startsWith fullHref base \<or> startsWith fullHref baseDomain) \<and>
               fcard V < maxPages \<and> fullHref |\<notin>| V \<and> fullHref \<notin> set q
            then q @ [fullHref] else q)"

definition external_of_link ::
  "url_api \<Rightarrow> string \<Rightarrow> string \<Rightarrow> string \<Rightarrow> string \<times> string \<Rightarrow> ext_link list" where
  \<comment> \<open>what one round of the link loop appends to \<^verbatim>\<open>externalLinks\<close>\<close>
  "external_of_link api base baseDomain currentUrl a =
     (let cleaned = trim (split_hash_first (fst a)) in
      if not_crawlable cleaned then []
      else
        case full_href api cleaned base of
          None \<Rightarrow> []
        | Some fullHref \<Rightarrow>
            if startsWith fullHref base \<or> startsWith fullHref baseDomain then []
            else [FromTo currentUrl fullHref])"

section \<open>The sitemap graph\<close>

definition sitemap_edges :: "web \<Rightarrow> (string \<times> string) set" where
  \<comment> \<open>a sitemap index refers to each sitemap it lists\<close>
  "sitemap_edges w =
     {(u, v). \<exists>sms. map_of w u = Some (SitemapIndex sms) \<and> Some v \<in> set sms}"

definition leaf_urls :: "web \<Rightarrow> string \<Rightarrow> string set" where
  \<comment> \<open>the page URLs that a \<^verbatim>\<open>urlset\<close> document lists\<close>
  "leaf_urls w u = (case map_of w u of Some (Urlset us) \<Rightarrow> {x. Some x \<in> set us} | _ \<Rightarrow> {})"

definition well_formed_entries :: "sitemap_doc \<Rightarrow> bool" where
  "well_formed_entries doc =
     (case doc of
        Urlset us \<Rightarrow> None \<notin> set us
      | SitemapIndex sms \<Rightarrow> None \<notin> set sms
      | OtherDocument \<Rightarrow> True)"

definition well_formed :: "web \<Rightarrow> bool" where
  \<comment> \<open>every entry of every document has its \<^verbatim>\<open>loc\<close>\<close>
  "well_formed w = list_all (\<lambda>p. well_formed_entries (snd p)) w"

definition unseen :: "web \<Rightarrow> string fset \<Rightarrow> nat" where
  \<comment> \<open>how many URLs with a document are not yet in the seen-set\<close>
  "unseen w seen = card (set (map fst w) - fset seen)"

definition explored ::
  "web \<Rightarrow> string set \<Rightarrow> string fset \<Rightarrow> string fset \<Rightarrow> string set \<Rightarrow> bool" where
  \<comment> \<open>what a call that starts from \<open>roots\<close> with the seen-set \<open>seen\<close> has done when it
      returns with \<open>seen'\<close>: the roots are seen, the newly seen sitemaps are reachable from
      the roots, all that they refer to is seen, and \<open>leaves\<close> is what they list\<close>
  "explored w roots seen seen' leaves =
     (fset seen \<subseteq> fset seen' \<and> roots \<subseteq> fset seen' \<and>
      fset seen' - fset seen \<subseteq> (sitemap_edges w)\<^sup>* `` roots \<and>
      leaves = \<Union> (leaf_urls w ` (fset seen' - fset seen)) \<and>
      (\<forall>x \<in> fset seen' - fset seen. sitemap_edges w `` {x} \<subseteq> fset seen'))"


section \<open>Sample inputs\<close>

text \<open>Concrete inputs for the examples that accompany the theorems.\<close>

definition sample_args :: crawl_args where
  "sample_args =
     \<lparr>arg_base = ''https://example.com/'',
      arg_mainPageUrl = ''https://example.com/'',
      arg_baseDomain = ''https://example.com''\<rparr>"

definition sample_start :: sys where
  "sample_start = run_start 1 [''https://example.com/''] (module_load 0)"

definition sample_page :: "string \<Rightarrow> (string \<times> string) list \<Rightarrow> page_doc" where
  "sample_page h anchors =
     \<lparr>pg_hash = h, pg_anchors = anchors, pg_formHeadingIssues = [], pg_missingSeo = [],
      pg_metaTags = [], pg_ogTags = [], pg_seoInsight = ''seo'', pg_metaTagAudit = ''audit'',
      pg_technicalSeo = ''technical'', pg_imageAlts = [], pg_imageIssues = [],
      pg_structuredData = [], pg_keywordStats = []\<rparr>"

definition timeout_error :: js_error where
  "timeout_error =
     \<lparr>err_response_status = None, err_code = None,
      err_message = ''Navigation timeout of 60000 ms exceeded''\<rparr>"

definition links_page :: page_doc where
  "links_page =
     sample_page ''H4''
       [(''/about#team'', ''About''), (''mailto:me@example.com'', ''Mail''),
        (''//'', ''Nowhere'')]"

definition env_same_page :: fetch_env where
  \<comment> \<open>every page renders, with the same body text; each step of the rendering succeeds\<close>
  "env_same_page =
     \<lparr>open_page = (\<lambda>u. None),
      render = (\<lambda>u. Inr (sample_page ''H1'' [])),
      close_page = (\<lambda>u. None),
      eval_links = (\<lambda>u. Inr []),
      failed_checks = (\<lambda>u. []),
      elapsed = (\<lambda>u. 120),
      lighthouse = (\<lambda>u. (''lighthouse'', ''vitals'')),
      http_get = (\<lambda>u. Inl timeout_error)\<rparr>"

definition env_fallback :: fetch_env where
  \<comment> \<open>the renderer times out, the plain GET answers 200\<close>
  "env_fallback =
     env_same_page
       \<lparr>render := (\<lambda>u. Inl timeout_error),
        http_get := (\<lambda>u. Inr (200, sample_page ''H2'' []))\<rparr>"

definition env_eval_fails :: fetch_env where
  \<comment> \<open>the page loads, \<^verbatim>\<open>page.$$eval\<close> rejects, the plain GET answers 200\<close>
  "env_eval_fails =
     env_same_page
       \<lparr>eval_links := (\<lambda>u. Inl timeout_error),
        http_get := (\<lambda>u. Inr (200, sample_page ''H2'' []))\<rparr>"

definition env_no_browser :: fetch_env where
  \<comment> \<open>no page can be opened, the plain GET answers 200\<close>
  "env_no_browser =
     env_same_page
       \<lparr>open_page := (\<lambda>u. Some timeout_error),
        http_get := (\<lambda>u. Inr (200, sample_page ''H2'' []))\<rparr>"

definition env_evil_link :: fetch_env where
  \<comment> \<open>the page holds one link, to a host whose name begins with the seed's host name\<close>
  "env_evil_link =
     env_same_page
       \<lparr>render :=
          (\<lambda>u. Inr (sample_page ''H3''
                      [(''https://example.com.evil.org/login'', ''Sign in'')]))\<rparr>"

definition seed_admitted :: sys where
  \<comment> \<open>the seed URL has been admitted, nothing else has happened\<close>
  "seed_admitted = crawlPage_enter sample_api ''https://example.com/'' sample_start"

definition seed_loaded :: sys where
  \<comment> \<open>the page of the seed URL is loaded and awaits \<^verbatim>\<open>page.close()\<close>\<close>
  "seed_loaded =
     exec Part_000 sample_api sample_args sample_start
       [Invoke ''https://example.com/'', Wake ''https://example.com/'',
        Opened ''https://example.com/'', Loaded ''https://example.com/'' links_page]"

definition two_admitted :: sys where
  \<comment> \<open>two pages are being fetched, none is processed yet\<close>
  "two_admitted =
     exec Part_000 sample_api sample_args sample_start
       [Invoke ''https://example.com/x'', Wake ''https://example.com/x'',
        Opened ''https://example.com/x'',
        Invoke ''https://example.com/y'', Wake ''https://example.com/y'',
        Opened ''https://example.com/y'']"

definition first_run :: sys where
  "first_run = crawlPage sample_api env_same_page sample_args ''https://example.com/x'' sample_start"

definition second_run :: sys where
  \<comment> \<open>runCrawl is called again in the same process, and crawls the same page\<close>
  "second_run =
     crawlPage sample_api env_same_page sample_args ''https://example.com/x''
       (run_start 2 [''https://example.com/''] (sess first_run))"

definition earlier_run :: sys where
  \<comment> \<open>a run that crawls the page \<^verbatim>\<open>/y\<close>\<close>
  "earlier_run =
     crawlPage sample_api env_same_page sample_args ''https://example.com/y'' sample_start"

definition later_run :: sys where
  \<comment> \<open>runCrawl is called again in the same process; this run crawls \<^verbatim>\<open>/x\<close>, then \<^verbatim>\<open>/y\<close>, two pages
      with the same body text\<close>
  "later_run =
     crawlPage sample_api env_same_page sample_args ''https://example.com/y''
       (crawlPage sample_api env_same_page sample_args ''https://example.com/x''
          (run_start 2 [''https://example.com/''] (sess earlier_run)))"

definition later_run_crawler_js :: sys where
  \<comment> \<open>the same two runs of \<^verbatim>\<open>src/crawler.js\<close>\<close>
  "later_run_crawler_js =
     crawlPage_crawler_js sample_api env_same_page sample_args ''https://example.com/y''
       (crawlPage_crawler_js sample_api env_same_page sample_args ''https://example.com/x''
          (run_start 2 [''https://example.com/'']
             (sess (crawlPage_crawler_js sample_api env_same_page sample_args
                      ''https://example.com/y'' sample_start))))"

definition cyclic_web :: web where
  \<comment> \<open>index A lists B; index B lists A again and the urlset C\<close>
  "cyclic_web =
     [(''https://example.com/sitemap.xml'',
         SitemapIndex [Some ''https://example.com/sitemap-b.xml'']),
      (''https://example.com/sitemap-b.xml'',
         SitemapIndex [Some ''https://example.com/sitemap.xml'',
                       Some ''https://example.com/sitemap-c.xml'']),
      (''https://example.com/sitemap-c.xml'',
         Urlset [Some ''https://example.com/a'', Some ''https://example.com/b''])]"


section \<open>Strings\<close>

lemma suffix_trimStart: "suffix (trimStart s) s"
proof (induction s rule: trimStart.induct)
  case (1 s)
  show ?case
  proof (cases "List.find (\<lambda>w. prefix w s) white_space")
    case None
    then show ?thesis by simp
  next
    case (Some w)
    with 1 have "suffix (trimStart (drop (length w) s)) (drop (length w) s)" by simp
    then have "suffix (trimStart (drop (length w) s)) s"
      using suffix_drop suffix_order.trans by blast
    with Some show ?thesis by simp
  qed
qed

lemma prefix_trimEnd: "prefix (trimEnd s) s"
proof (induction s rule: trimEnd.induct)
  case (1 s)
  show ?case
  proof (cases "List.find (\<lambda>w. suffix w s) white_space")
    case None
    then show ?thesis by simp
  next
    case (Some w)
    with 1 have "prefix (trimEnd (take (length s - length w) s)) (take (length s - length w) s)"
      by simp
    then have "prefix (trimEnd (take (length s - length w) s)) s"
      using take_is_prefix prefix_order.trans by blast
    with Some show ?thesis by simp
  qed
qed

lemma set_trim: "set (trim s) \<subseteq> set s"
  using set_mono_prefix [OF prefix_trimEnd, of "trimStart s"]
    set_mono_suffix [OF suffix_trimStart, of s]
  by (auto simp: trim_def)

lemma cleaned_hash_free: "CHR ''#'' \<notin> set (trim (split_hash_first s))"
proof -
  have "CHR ''#'' \<notin> set (split_hash_first s)"
    by (auto simp: split_hash_first_def dest: set_takeWhileD)
  with set_trim [of "split_hash_first s"] show ?thesis by blast
qed

section \<open>Frame lemmas\<close>

lemma foldl_frame: "(\<And>y a. g (f y a) = g y) \<Longrightarrow> g (foldl f y xs) = g y"
  by (induction xs arbitrary: y) simp_all

lemma phase_of_simps:
  "phase_of (suspend u ph y) v = (if v = u then Some ph else phase_of y v)"
  "phase_of (finish u y) v = (if v = u then None else phase_of y v)"
  "phase_of (y\<lparr>sess := s\<rparr>) = phase_of y"
  "phase_of (y\<lparr>net := n\<rparr>) = phase_of y"
  "phase_of (y\<lparr>queue := q\<rparr>) = phase_of y"
  "phase_of (y\<lparr>console := l\<rparr>) = phase_of y"
  by (simp_all add: phase_of_def suspend_def finish_def update_conv' delete_conv' fun_eq_iff)

lemma suspend_simps:
  "sess (suspend u ph y) = sess y"
  "queue (suspend u ph y) = queue y"
  "console (suspend u ph y) = console y"
  "net (suspend u ph y) = net y"
  "tasks (suspend u ph y) = AList.update u ph (tasks y)"
  by (simp_all add: suspend_def)

lemma finish_simps:
  "sess (finish u y) = sess y"
  "queue (finish u y) = queue y"
  "console (finish u y) = console y"
  "net (finish u y) = net y"
  "tasks (finish u y) = AList.delete u (tasks y)"
  by (simp_all add: finish_def)

lemma process_link_frame:
  "visited (sess (process_link api m b d u y a)) = visited (sess y)"
  "contentHashes (sess (process_link api m b d u y a)) = contentHashes (sess y)"
  "duplicateContentIssues (sess (process_link api m b d u y a)) = duplicateContentIssues (sess y)"
  "workingLinks (sess (process_link api m b d u y a)) = workingLinks (sess y)"
  "brokenLinks (sess (process_link api m b d u y a)) = brokenLinks (sess y)"
  "pagesScanned (sess (process_link api m b d u y a)) = pagesScanned (sess y)"
  "console (process_link api m b d u y a) = console y"
  "net (process_link api m b d u y a) = net y"
  "tasks (process_link api m b d u y a) = tasks y"
  "performanceMetrics (sess (process_link api m b d u y a)) = performanceMetrics (sess y)"
  by (simp_all add: process_link_def Let_def split: option.splits)

lemma process_links_frame:
  "visited (sess (process_links api m b d u ls y)) = visited (sess y)"
  "contentHashes (sess (process_links api m b d u ls y)) = contentHashes (sess y)"
  "duplicateContentIssues (sess (process_links api m b d u ls y)) = duplicateContentIssues (sess y)"
  "workingLinks (sess (process_links api m b d u ls y)) = workingLinks (sess y)"
  "brokenLinks (sess (process_links api m b d u ls y)) = brokenLinks (sess y)"
  "pagesScanned (sess (process_links api m b d u ls y)) = pagesScanned (sess y)"
  "console (process_links api m b d u ls y) = console y"
  "net (process_links api m b d u ls y) = net y"
  "tasks (process_links api m b d u ls y) = tasks y"
  "performanceMetrics (sess (process_links api m b d u ls y)) = performanceMetrics (sess y)"
  unfolding process_links_def
  by (rule foldl_frame [where g = "\<lambda>y. visited (sess y)"], simp add: process_link_frame,
      rule foldl_frame [where g = "\<lambda>y. contentHashes (sess y)"], simp add: process_link_frame,
      rule foldl_frame [where g = "\<lambda>y. duplicateContentIssues (sess y)"], simp add: process_link_frame,
      rule foldl_frame [where g = "\<lambda>y. workingLinks (sess y)"], simp add: process_link_frame,
      rule foldl_frame [where g = "\<lambda>y. brokenLinks (sess y)"], simp add: process_link_frame,
      rule foldl_frame [where g = "\<lambda>y. pagesScanned (sess y)"], simp add: process_link_frame,
      rule foldl_frame [where g = console], simp add: process_link_frame,
      rule foldl_frame [where g = net], simp add: process_link_frame,
      rule foldl_frame [where g = tasks], simp add: process_link_frame,
      rule foldl_frame [where g = "\<lambda>y. performanceMetrics (sess y)"],
      simp add: process_link_frame)

lemma duplicate_content_detection_frame:
  "visited (duplicate_content_detection u h s) = visited s"
  "workingLinks (duplicate_content_detection u h s) = workingLinks s"
  "brokenLinks (duplicate_content_detection u h s) = brokenLinks s"
  "pagesScanned (duplicate_content_detection u h s) = pagesScanned s"
  "externalLinks (duplicate_content_detection u h s) = externalLinks s"
  "performanceMetrics (duplicate_content_detection u h s) = performanceMetrics s"
  by (simp_all add: duplicate_content_detection_def split: option.splits)

lemma content_audits_frame:
  "visited (content_audits u p s) = visited s"
  "workingLinks (content_audits u p s) = workingLinks s"
  "brokenLinks (content_audits u p s) = brokenLinks s"
  "pagesScanned (content_audits u p s) = pagesScanned s"
  "externalLinks (content_audits u p s) = externalLinks s"
  "contentHashes (content_audits u p s) =
     contentHashes (duplicate_content_detection u (pg_hash p) s)"
  "duplicateContentIssues (content_audits u p s) =
     duplicateContentIssues (duplicate_content_detection u (pg_hash p) s)"
  "performanceMetrics (content_audits u p s) = performanceMetrics s"
  by (simp_all add: content_audits_def Let_def duplicate_content_detection_frame)

lemma crawlPage_extract_frame:
  "visited (sess (crawlPage_extract api m b d u p ls y)) = visited (sess y)"
  "workingLinks (sess (crawlPage_extract api m b d u p ls y)) = workingLinks (sess y)"
  "brokenLinks (sess (crawlPage_extract api m b d u p ls y)) = brokenLinks (sess y)"
  "pagesScanned (sess (crawlPage_extract api m b d u p ls y)) = pagesScanned (sess y)"
  "contentHashes (sess (crawlPage_extract api m b d u p ls y)) = contentHashes (sess y)"
  "duplicateContentIssues (sess (crawlPage_extract api m b d u p ls y))
     = duplicateContentIssues (sess y)"
  "console (crawlPage_extract api m b d u p ls y) = console y"
  "net (crawlPage_extract api m b d u p ls y) = net y"
  "tasks (crawlPage_extract api m b d u p ls y) = tasks y"
  "performanceMetrics (sess (crawlPage_extract api m b d u p ls y)) = performanceMetrics (sess y)"
  by (simp_all add: crawlPage_extract_def Let_def process_links_frame)

lemma crawlPage_process_frame:
  "visited (sess (crawlPage_process api b d u p y)) = visited (sess y)"
  "workingLinks (sess (crawlPage_process api b d u p y)) = workingLinks (sess y)"
  "brokenLinks (sess (crawlPage_process api b d u p y)) = brokenLinks (sess y)"
  "pagesScanned (sess (crawlPage_process api b d u p y)) = pagesScanned (sess y)"
  "contentHashes (sess (crawlPage_process api b d u p y)) =
     contentHashes (duplicate_content_detection u (pg_hash p) (sess y))"
  "duplicateContentIssues (sess (crawlPage_process api b d u p y)) =
     duplicateContentIssues (duplicate_content_detection u (pg_hash p) (sess y))"
  "console (crawlPage_process api b d u p y) = console y"
  "net (crawlPage_process api b d u p y) = net y"
  "tasks (crawlPage_process api b d u p y) = tasks y"
  "performanceMetrics (sess (crawlPage_process api b d u p y)) = performanceMetrics (sess y)"
  by (simp_all add: crawlPage_process_def crawlPage_extract_frame content_audits_frame)

lemma update_metrics_frame:
  "visited (update_metrics n s) = visited s"
  "workingLinks (update_metrics n s) = workingLinks s"
  "brokenLinks (update_metrics n s) = brokenLinks s"
  "pagesScanned (update_metrics n s) = pagesScanned s"
  "contentHashes (update_metrics n s) = contentHashes s"
  "duplicateContentIssues (update_metrics n s) = duplicateContentIssues s"
  "externalLinks (update_metrics n s) = externalLinks s"
  "errors (performanceMetrics (update_metrics n s)) = errors (performanceMetrics s)"
  by (simp_all add: update_metrics_def Let_def)

lemma resource_failed_frame:
  "visited (resource_failed r s) = visited s"
  "workingLinks (resource_failed r s) = workingLinks s"
  "brokenLinks (resource_failed r s) = brokenLinks s"
  "pagesScanned (resource_failed r s) = pagesScanned s"
  "contentHashes (resource_failed r s) = contentHashes s"
  "duplicateContentIssues (resource_failed r s) = duplicateContentIssues s"
  "externalLinks (resource_failed r s) = externalLinks s"
  "performanceMetrics (resource_failed r s) = performanceMetrics s"
  by (simp_all add: resource_failed_def)

lemma mark_working_frame:
  "visited (mark_working u st s) = visited s"
  "workingLinks (mark_working u st s) = workingLinks s @ [\<lparr>lr_url = u, lr_status = st\<rparr>]"
  "brokenLinks (mark_working u st s) = brokenLinks s"
  "pagesScanned (mark_working u st s) = pagesScanned s"
  "contentHashes (mark_working u st s) = contentHashes s"
  "duplicateContentIssues (mark_working u st s) = duplicateContentIssues s"
  "externalLinks (mark_working u st s) = externalLinks s"
  "performanceMetrics (mark_working u st s) = performanceMetrics s"
  by (simp_all add: mark_working_def)

lemma mark_broken_frame:
  "visited (mark_broken u st s) = visited s"
  "workingLinks (mark_broken u st s) = workingLinks s"
  "brokenLinks (mark_broken u st s) = brokenLinks s @ [\<lparr>lr_url = u, lr_status = st\<rparr>]"
  "pagesScanned (mark_broken u st s) = pagesScanned s"
  "contentHashes (mark_broken u st s) = contentHashes s"
  "duplicateContentIssues (mark_broken u st s) = duplicateContentIssues s"
  "externalLinks (mark_broken u st s) = externalLinks s"
  "performanceMetrics (mark_broken u st s) = performanceMetrics s"
  by (simp_all add: mark_broken_def)

lemma admit_Some:
  assumes "admit m u y = Some y'"
  shows "u |\<notin>| visited (sess y)" and "fcard (visited (sess y)) < m"
    and "visited (sess y') = finsert u (visited (sess y))"
    and "pagesScanned (sess y') = pagesScanned (sess y) + 1"
    and "workingLinks (sess y') = workingLinks (sess y)"
    and "brokenLinks (sess y') = brokenLinks (sess y)"
    and "contentHashes (sess y') = contentHashes (sess y)"
    and "duplicateContentIssues (sess y') = duplicateContentIssues (sess y)"
    and "queue y' = queue y"
    and "console y' = console y @ [Crawling u (Suc (fcard (visited (sess y))))]"
    and "net y' = net y"
    and "tasks y' = (u, Delaying) # tasks y"
    and "externalLinks (sess y') = externalLinks (sess y)"
    and "phase_of y' u = Some Delaying"
    and "errors (performanceMetrics (sess y')) = errors (performanceMetrics (sess y))"
  using assms
  by (auto simp: admit_def Let_def fcard_finsert_if phase_of_def split: if_splits)

section \<open>The steps, one event at a time\<close>

lemma step_Invoke:
  "step Part_000 api args y (Invoke u) = crawlPage_enter api u y"
  "step Crawler_js api args y (Invoke u) = crawlPage_enter_crawler_js u y"
  by (simp_all add: step_def)

lemma step_Wake:
  "phase_of y u = Some Delaying \<Longrightarrow> step f api args y (Wake u) = suspend u Opening y"
  by (simp add: step_def)

lemma step_Opened:
  "phase_of y u = Some Opening \<Longrightarrow> step f api args y (Opened u) = crawlPage_goto u y"
  by (simp add: step_def)

lemma step_Loaded:
  "phase_of y u = Some Fetching \<Longrightarrow>
   step Part_000 api args y (Loaded u page) = suspend u (Closing page) y"
  "phase_of y u = Some Fetching \<Longrightarrow>
   step Crawler_js api args y (Loaded u page) =
     suspend u (Evaluating page) (y\<lparr>sess := content_audits u page (sess y)\<rparr>)"
  by (simp_all add: step_def)

lemma step_Closed:
  "phase_of y u = Some (Closing page) \<Longrightarrow>
   step Part_000 api args y (Closed u) =
     suspend u Checking (crawlPage_process api (arg_base args) (arg_baseDomain args) u page y)"
  "phase_of y u = Some (Failing err) \<Longrightarrow>
   step Part_000 api args y (Closed u) = crawlPage_catch u err y"
  by (simp_all add: step_def)

lemma step_Evaluated:
  "phase_of y u = Some (Evaluating page) \<Longrightarrow>
   step Crawler_js api args y (Evaluated u anchors) =
     suspend u Checking
       (crawlPage_extract api MAX_PAGES_crawler_js (arg_base args) (arg_baseDomain args) u page
          (filter_links anchors) y)"
  by (simp add: step_def)

lemma step_ResourceFailed:
  "phase_of y u = Some Checking \<Longrightarrow>
   step f api args y (ResourceFailed u r) = y\<lparr>sess := resource_failed r (sess y)\<rparr>"
  by (simp add: step_def)

lemma step_Checked:
  "phase_of y u = Some Checking \<Longrightarrow>
   step Part_000 api args y (Checked u n) = crawlPage_complete u n y"
  "phase_of y u = Some Checking \<Longrightarrow>
   step Crawler_js api args y (Checked u n) =
     crawlPage_complete_crawler_js u (arg_mainPageUrl args) n y"
  by (simp_all add: step_def)

lemma step_Audited:
  "phase_of y u = Some Auditing \<Longrightarrow>
   step Crawler_js api args y (Audited u r v) = run_lighthouse u r v y"
  by (simp add: step_def)

lemma step_Threw:
  "step Part_000 api args y (Threw u err) = crawlPage_threw u err y"
  "step Crawler_js api args y (Threw u err) = crawlPage_threw_crawler_js u err y"
  by (simp_all add: step_def)

lemma step_Fallback:
  "phase_of y u = Some FallingBack \<Longrightarrow>
   step Crawler_js api args y (FallbackOk u st page) = fallback_success u st page y"
  "phase_of y u = Some FallingBack \<Longrightarrow>
   step Crawler_js api args y (FallbackThrew u) = finish u y"
  by (simp_all add: step_def)

lemma exec_simps:
  "exec f api args y [] = y"
  "exec f api args y (e # es) = exec f api args (step f api args y e) es"
  "exec f api args y (es @ es') = exec f api args (exec f api args y es) es'"
  by (simp_all add: exec_def)

section \<open>What a step changes of the core\<close>

lemma core_of_simps:
  "core_of (suspend u ph y) = (core_of y)\<lparr>c_tasks := AList.update u ph (c_tasks (core_of y))\<rparr>"
  "core_of (finish u y) = (core_of y)\<lparr>c_tasks := AList.delete u (c_tasks (core_of y))\<rparr>"
  "core_of (y\<lparr>net := n\<rparr>) = (core_of y)\<lparr>c_net := n\<rparr>"
  "core_of (y\<lparr>sess := s\<rparr>) =
     (core_of y)\<lparr>c_visited := visited s, c_count := pagesScanned s,
                c_working := workingLinks s, c_broken := brokenLinks s,
                c_errors := errors (performanceMetrics s)\<rparr>"
  by (simp_all add: core_of_def suspend_def finish_def)

lemma core_of_fields:
  "c_visited (core_of y) = visited (sess y)"
  "c_count (core_of y) = pagesScanned (sess y)"
  "c_console (core_of y) = console y"
  "c_net (core_of y) = net y"
  "c_tasks (core_of y) = tasks y"
  "c_working (core_of y) = workingLinks (sess y)"
  "c_broken (core_of y) = brokenLinks (sess y)"
  "c_errors (core_of y) = errors (performanceMetrics (sess y))"
  by (simp_all add: core_of_def)

lemma core_of_segments:
  "core_of (crawlPage_process api b d u p y) = core_of y"
  "core_of (crawlPage_extract api m b d u p ls y) = core_of y"
  by (simp_all add: core_of_def crawlPage_process_frame crawlPage_extract_frame)


lemma moves_admit:
  assumes "m = max_pages f"
  shows "moves f (core_of y) (core_of (case admit m u y of None \<Rightarrow> y | Some y' \<Rightarrow> y'))"
proof (cases "admit m u y")
  case None
  then show ?thesis by (simp add: moves.stay)
next
  case (Some y')
  have "core_of y' =
      (core_of y)\<lparr>c_visited := finsert u (c_visited (core_of y)),
                  c_count := c_count (core_of y) + 1,
                  c_console := c_console (core_of y) @
                     [Crawling u (Suc (fcard (c_visited (core_of y))))],
                  c_tasks := (u, Delaying) # c_tasks (core_of y)\<rparr>"
    using admit_Some [OF Some] by (simp add: core_of_def)
  moreover have "u |\<notin>| c_visited (core_of y)" "fcard (c_visited (core_of y)) < max_pages f"
    using admit_Some(1,2) [OF Some] assms by (simp_all add: core_of_fields)
  ultimately show ?thesis using Some moves.admitted [of u "core_of y" f] by simp
qed

lemma moves_Invoke: "moves f (core_of y) (core_of (step f api args y (Invoke u)))"
  using moves_admit [of MAX_PAGES Part_000 y "normalizeUrl api u"]
    moves_admit [of MAX_PAGES_crawler_js Crawler_js y u]
  by (cases f)
     (simp_all add: step_Invoke crawlPage_enter_def crawlPage_enter_crawler_js_def max_pages_def)

lemma moves_Wake: "moves f (core_of y) (core_of (step f api args y (Wake u)))"
proof (cases "phase_of y u = Some Delaying")
  case True
  then show ?thesis
    using moves.woke [of "core_of y" u f]
    by (simp add: step_Wake core_of_simps core_of_fields phase_of_def)
next
  case False
  then have "step f api args y (Wake u) = y"
    by (auto simp: step_def split: option.splits phase.splits)
  then show ?thesis by (simp add: moves.stay)
qed

lemma moves_Opened: "moves f (core_of y) (core_of (step f api args y (Opened u)))"
proof (cases "phase_of y u = Some Opening")
  case True
  then show ?thesis
    using moves.went [of "core_of y" u f]
    by (simp add: step_Opened crawlPage_goto_def core_of_simps core_of_fields phase_of_def)
next
  case False
  then have "step f api args y (Opened u) = y"
    by (auto simp: step_def split: option.splits phase.splits)
  then show ?thesis by (simp add: moves.stay)
qed

lemma moves_Loaded: "moves f (core_of y) (core_of (step f api args y (Loaded u p)))"
proof (cases "phase_of y u = Some Fetching")
  case True
  then have t: "map_of (c_tasks (core_of y)) u = Some Fetching"
    by (simp add: core_of_fields phase_of_def)
  show ?thesis
  proof (cases f)
    case Part_000
    then show ?thesis
      using True moves.advanced [OF t, of "Closing p" f]
      by (simp add: step_Loaded core_of_simps in_page_def)
  next
    case Crawler_js
    then show ?thesis
      using True moves.advanced [OF t, of "Evaluating p" f]
      by (simp add: step_Loaded core_of_def suspend_simps in_page_def content_audits_frame)
  qed
next
  case False
  then have "step f api args y (Loaded u p) = y"
    by (auto simp: step_def split: option.splits phase.splits)
  then show ?thesis by (simp add: moves.stay)
qed


lemma moves_Closed: "moves f (core_of y) (core_of (step f api args y (Closed u)))"
proof (cases f)
  case Crawler_js
  then show ?thesis by (simp add: step_def moves.stay)
next
  case Part_000
  consider (closing) p where "phase_of y u = Some (Closing p)"
    | (failing) err where "phase_of y u = Some (Failing err)"
    | (other) "step Part_000 api args y (Closed u) = y"
    by (cases "phase_of y u"; cases "the (phase_of y u)") (auto simp: step_def)
  then show ?thesis
  proof cases
    case closing
    then have t: "map_of (c_tasks (core_of y)) u = Some (Closing p)"
      by (simp add: core_of_fields phase_of_def)
    show ?thesis
      using Part_000 closing moves.advanced [OF t, of Checking f]
      by (simp add: step_Closed core_of_def suspend_simps in_page_def crawlPage_process_frame)
  next
    case failing
    then have t: "map_of (c_tasks (core_of y)) u = Some (Failing err)"
      by (simp add: core_of_fields phase_of_def)
    show ?thesis
      using Part_000 failing moves.broke [OF _ t, of f "StatusText (err_message err)"]
      by (simp add: step_Closed core_of_def crawlPage_catch_def finish_simps mark_broken_frame)
  next
    case other
    then show ?thesis using Part_000 by (simp add: moves.stay)
  qed
qed

lemma moves_Evaluated: "moves f (core_of y) (core_of (step f api args y (Evaluated u ls)))"
proof (cases f)
  case Part_000
  then show ?thesis by (simp add: step_def moves.stay)
next
  case Crawler_js
  consider (evaluating) p where "phase_of y u = Some (Evaluating p)"
    | (other) "step Crawler_js api args y (Evaluated u ls) = y"
    by (cases "phase_of y u"; cases "the (phase_of y u)") (auto simp: step_def)
  then show ?thesis
  proof cases
    case evaluating
    then have t: "map_of (c_tasks (core_of y)) u = Some (Evaluating p)"
      by (simp add: core_of_fields phase_of_def)
    show ?thesis
      using Crawler_js evaluating moves.advanced [OF t, of Checking f]
      by (simp add: step_Evaluated core_of_def suspend_simps in_page_def crawlPage_extract_frame)
  next
    case other
    then show ?thesis using Crawler_js by (simp add: moves.stay)
  qed
qed

lemma moves_ResourceFailed:
  "moves f (core_of y) (core_of (step f api args y (ResourceFailed u r)))"
proof (cases "phase_of y u = Some Checking")
  case True
  then have "core_of (step f api args y (ResourceFailed u r)) = core_of y"
    by (simp add: step_ResourceFailed core_of_def resource_failed_frame)
  then show ?thesis by (simp add: moves.stay)
next
  case False
  then have "step f api args y (ResourceFailed u r) = y"
    by (auto simp: step_def split: option.splits phase.splits)
  then show ?thesis by (simp add: moves.stay)
qed

lemma moves_Checked: "moves f (core_of y) (core_of (step f api args y (Checked u n)))"
proof (cases "phase_of y u = Some Checking")
  case True
  then have t: "map_of (c_tasks (core_of y)) u = Some Checking"
    by (simp add: core_of_fields phase_of_def)
  show ?thesis
  proof (cases f)
    case Part_000
    then show ?thesis
      using True moves.worked [OF t, of f "StatusCode 200"]
      by (simp add: step_Checked core_of_def crawlPage_complete_def finish_simps
            mark_working_frame update_metrics_frame)
  next
    case Crawler_js
    show ?thesis
    proof (cases "u = arg_mainPageUrl args")
      case True
      then show ?thesis
        using Crawler_js \<open>phase_of y u = Some Checking\<close> moves.advanced [OF t, of Auditing f]
        by (simp add: step_Checked core_of_def crawlPage_complete_crawler_js_def Let_def
              suspend_simps update_metrics_frame in_page_def)
    next
      case False
      then show ?thesis
        using Crawler_js \<open>phase_of y u = Some Checking\<close> moves.worked [OF t, of f "StatusCode 200"]
        by (simp add: step_Checked core_of_def crawlPage_complete_crawler_js_def Let_def
              finish_simps mark_working_frame update_metrics_frame)
    qed
  qed
next
  case False
  then have "step f api args y (Checked u n) = y"
    by (auto simp: step_def split: option.splits phase.splits)
  then show ?thesis by (simp add: moves.stay)
qed

lemma moves_Audited: "moves f (core_of y) (core_of (step f api args y (Audited u r v)))"
proof (cases "f = Crawler_js \<and> phase_of y u = Some Auditing")
  case True
  then have t: "map_of (c_tasks (core_of y)) u = Some Auditing"
    by (simp add: core_of_fields phase_of_def)
  show ?thesis
    using True moves.worked [OF t, of f "StatusCode 200"]
    by (simp add: step_Audited core_of_def run_lighthouse_def Let_def finish_simps
          mark_working_frame)
next
  case False
  then have "step f api args y (Audited u r v) = y"
    by (cases f) (auto simp: step_def split: option.splits phase.splits)
  then show ?thesis by (simp add: moves.stay)
qed

lemma core_of_catch_crawler_js:
  "core_of (crawlPage_catch_crawler_js u err y) =
     (core_of y)\<lparr>c_net := c_net (core_of y) @ [AxiosGet u],
                c_tasks := AList.update u FallingBack (c_tasks (core_of y)),
                c_broken := c_broken (core_of y) @ [\<lparr>lr_url = u, lr_status = error_status err\<rparr>],
                c_errors := c_errors (core_of y) + 1\<rparr>"
  by (simp add: core_of_def crawlPage_catch_crawler_js_def Let_def suspend_simps
        mark_broken_frame)

lemma moves_Threw: "moves f (core_of y) (core_of (step f api args y (Threw u err)))"
proof (cases f)
  case Part_000
  consider (nopage) "phase_of y u = Some Opening"
    | (page) ph where "phase_of y u = Some ph" "ph = Fetching \<or> (\<exists>p. ph = Closing p)"
    | (other) "crawlPage_threw u err y = y"
    by (cases "phase_of y u"; cases "the (phase_of y u)") (auto simp: crawlPage_threw_def)
  then show ?thesis
  proof cases
    case nopage
    then have t: "map_of (c_tasks (core_of y)) u = Some Opening"
      by (simp add: core_of_fields phase_of_def)
    show ?thesis
      using Part_000 nopage moves.broke [OF _ t, of f "StatusText (err_message err)"]
      by (simp add: step_Threw crawlPage_threw_def core_of_def crawlPage_catch_def finish_simps
            mark_broken_frame)
  next
    case page
    then have t: "map_of (c_tasks (core_of y)) u = Some ph"
      by (simp add: core_of_fields phase_of_def)
    have i: "in_page ph" using page(2) by (auto simp: in_page_def)
    have "crawlPage_threw u err y = suspend u (Failing err) y"
      using page by (auto simp: crawlPage_threw_def)
    then show ?thesis
      using Part_000 moves.advanced [OF t i, of "Failing err" f err]
      by (simp add: step_Threw core_of_def suspend_simps)
  next
    case other
    then show ?thesis using Part_000 by (simp add: step_Threw moves.stay)
  qed
next
  case Crawler_js
  consider (intry) ph where "phase_of y u = Some ph"
      "ph = Opening \<or> ph = Fetching \<or> (\<exists>p. ph = Evaluating p)"
    | (other) "crawlPage_threw_crawler_js u err y = y"
    by (cases "phase_of y u"; cases "the (phase_of y u)")
       (auto simp: crawlPage_threw_crawler_js_def)
  then show ?thesis
  proof cases
    case intry
    then have t: "map_of (c_tasks (core_of y)) u = Some ph"
      by (simp add: core_of_fields phase_of_def)
    have i: "ph = Opening \<or> in_page ph" using intry(2) by (auto simp: in_page_def)
    have "crawlPage_threw_crawler_js u err y = crawlPage_catch_crawler_js u err y"
      using intry by (auto simp: crawlPage_threw_crawler_js_def)
    then show ?thesis
      using Crawler_js moves.fell [OF _ t i, of f "error_status err"]
      by (simp add: step_Threw core_of_catch_crawler_js)
  next
    case other
    then show ?thesis using Crawler_js by (simp add: step_Threw moves.stay)
  qed
qed

lemma moves_Fallback:
  "moves f (core_of y) (core_of (step f api args y (FallbackOk u st p)))"
  "moves f (core_of y) (core_of (step f api args y (FallbackThrew u)))"
proof -
  show "moves f (core_of y) (core_of (step f api args y (FallbackOk u st p)))"
  proof (cases "f = Crawler_js \<and> phase_of y u = Some FallingBack")
    case True
    then have t: "map_of (c_tasks (core_of y)) u = Some FallingBack"
      by (simp add: core_of_fields phase_of_def)
    show ?thesis
      using True moves.worked [OF t, of f "StatusCode st"]
      by (simp add: step_Fallback core_of_def fallback_success_def Let_def finish_simps
            mark_working_frame)
  next
    case False
    then have "step f api args y (FallbackOk u st p) = y"
      by (cases f) (auto simp: step_def split: option.splits phase.splits)
    then show ?thesis by (simp add: moves.stay)
  qed
  show "moves f (core_of y) (core_of (step f api args y (FallbackThrew u)))"
  proof (cases "f = Crawler_js \<and> phase_of y u = Some FallingBack")
    case True
    then have t: "map_of (c_tasks (core_of y)) u = Some FallingBack"
      by (simp add: core_of_fields phase_of_def)
    show ?thesis
      using True moves.dropped [OF t, of f]
      by (simp add: step_Fallback core_of_def finish_simps)
  next
    case False
    then have "step f api args y (FallbackThrew u) = y"
      by (cases f) (auto simp: step_def split: option.splits phase.splits)
    then show ?thesis by (simp add: moves.stay)
  qed
qed

lemma step_moves: "moves f (core_of y) (core_of (step f api args y e))"
  by (cases e)
     (simp_all add: moves_Invoke moves_Wake moves_Opened moves_Loaded moves_Closed
        moves_Evaluated moves_ResourceFailed moves_Checked moves_Audited moves_Threw
        moves_Fallback)


lemma task_key: "map_of al k = Some v \<Longrightarrow> k \<in> fst ` set al"
  by (induction al) (auto split: if_splits)

lemma update_keys: "map_of al k = Some v \<Longrightarrow> fst ` set (AList.update k w al) = fst ` set al"
  using task_key [of al k v] by (auto simp: dom_update)

lemma delete_keys_subset: "fst ` set (AList.delete k al) \<subseteq> fst ` set al"
  by (auto simp: AList.delete_eq)

lemma tasks_inv_moves:
  assumes i: "tasks_inv c" and m: "moves f c c'"
  shows "tasks_inv c'"
  using m
proof cases
  case stay
  with i show ?thesis by simp
next
  case (admitted u)
  with i show ?thesis by (auto simp: tasks_inv_def)
next
  case (woke u)
  with i show ?thesis by (simp add: tasks_inv_def distinct_update update_keys)
next
  case (went u)
  with i show ?thesis by (simp add: tasks_inv_def distinct_update update_keys)
next
  case (advanced u ph ph' err)
  with i show ?thesis by (simp add: tasks_inv_def distinct_update update_keys)
next
  case (worked u ph st)
  with i delete_keys_subset [of u "c_tasks c"] show ?thesis
    by (auto simp: tasks_inv_def distinct_delete)
next
  case (broke u ph st)
  with i delete_keys_subset [of u "c_tasks c"] show ?thesis
    by (auto simp: tasks_inv_def distinct_delete)
next
  case (fell u ph st)
  with i show ?thesis by (simp add: tasks_inv_def distinct_update update_keys)
next
  case (dropped u)
  with i delete_keys_subset [of u "c_tasks c"] show ?thesis
    by (auto simp: tasks_inv_def distinct_delete)
qed

lemma console_inv_moves:
  assumes i: "console_inv c" and m: "moves f c c'"
  shows "console_inv c'"
  using m
proof cases
  case (admitted u)
  from i have v: "fset_of_list (map crawling_url (c_console c)) = c_visited c"
    by (simp add: console_inv_def)
  from admitted(2) have "u \<notin> set (map crawling_url (c_console c))"
    unfolding v [symmetric] by (simp add: fset_of_list.rep_eq)
  with i admitted show ?thesis
    by (auto simp: console_inv_def crawling_url_def)
qed (use i in \<open>simp_all add: console_inv_def\<close>)

lemma budget_inv_moves:
  assumes i: "budget_inv f c" and m: "moves f c c'"
  shows "budget_inv f c'"
  using m
proof cases
  case (admitted u)
  with i show ?thesis
    by (auto simp: budget_inv_def crawling_size_def fcard_finsert_if)
qed (use i in \<open>simp_all add: budget_inv_def\<close>)

lemma fallback_inv_moves:
  assumes i: "fallback_inv f c" and m: "moves f c c'"
  shows "fallback_inv f c'"
  using m
  by cases (use i in \<open>auto simp: fallback_inv_def is_fallback_def\<close>)

lemma net_inv_moves:
  assumes i: "net_inv c" and t: "tasks_inv c" and m: "moves f c c'"
  shows "net_inv c'"
proof -
  from i have d: "distinct (c_net c)"
    and g: "\<forall>u. PageGoto u \<in> set (c_net c) \<longrightarrow>
         u |\<in>| c_visited c \<and> map_of (c_tasks c) u \<noteq> Some Delaying \<and>
         map_of (c_tasks c) u \<noteq> Some Opening"
    and a: "\<forall>u. AxiosGet u \<in> set (c_net c) \<longrightarrow>
         u |\<in>| c_visited c \<and>
         (map_of (c_tasks c) u = None \<or> map_of (c_tasks c) u = Some FallingBack)"
    by (simp_all add: net_inv_def)
  have v: "u |\<in>| c_visited c" if "map_of (c_tasks c) u = Some ph" for u ph
    using t task_key [OF that] by (auto simp: tasks_inv_def)
  from m show ?thesis
  proof cases
    case stay
    with i show ?thesis by simp
  next
    case (admitted u)
    with d g a show ?thesis by (auto simp: net_inv_def)
  next
    case (woke u)
    with d g a show ?thesis by (auto simp: net_inv_def update_conv')
  next
    case (went u)
    with d g a v [of u Opening] show ?thesis by (auto simp: net_inv_def update_conv')
  next
    case (advanced u ph ph' err)
    with d g a show ?thesis by (auto simp: net_inv_def update_conv' in_page_def)
  next
    case (worked u ph st)
    with d g a show ?thesis by (auto simp: net_inv_def delete_conv')
  next
    case (broke u ph st)
    with d g a show ?thesis by (auto simp: net_inv_def delete_conv')
  next
    case (fell u ph st)
    with d g a v [of u ph] show ?thesis
      by (auto simp: net_inv_def update_conv' in_page_def)
  next
    case (dropped u)
    with d g a show ?thesis by (auto simp: net_inv_def delete_conv')
  qed
qed

lemma records_inv_moves:
  assumes i: "records_inv f c" and t: "tasks_inv c" and m: "moves f c c'"
  shows "records_inv f c'"
proof -
  from i have dw: "distinct (map lr_url (c_working c))"
    and db: "distinct (map lr_url (c_broken c))"
    and w: "\<forall>r \<in> set (c_working c).
         lr_url r |\<in>| c_visited c \<and> map_of (c_tasks c) (lr_url r) = None"
    and b: "\<forall>r \<in> set (c_broken c).
         lr_url r |\<in>| c_visited c \<and>
         (map_of (c_tasks c) (lr_url r) = None \<or>
          f = Crawler_js \<and> map_of (c_tasks c) (lr_url r) = Some FallingBack)"
    and x: "f = Crawler_js \<or>
       lr_url ` set (c_working c) \<inter> lr_url ` set (c_broken c) = {}"
    by (simp_all add: records_inv_def)
  have v: "u |\<in>| c_visited c" if "map_of (c_tasks c) u = Some ph" for u ph
    using t task_key [OF that] by (auto simp: tasks_inv_def)
  from m show ?thesis
  proof cases
    case stay
    with i show ?thesis by simp
  next
    case (admitted u)
    with dw db w b x show ?thesis by (auto simp: records_inv_def)
  next
    case (woke u)
    with dw db w b x show ?thesis by (auto simp: records_inv_def update_conv')
  next
    case (went u)
    with dw db w b x show ?thesis by (auto simp: records_inv_def update_conv')
  next
    case (advanced u ph ph' err)
    with dw db w b x show ?thesis by (auto simp: records_inv_def update_conv' in_page_def)
  next
    case (worked u ph st)
    with dw db w b x v [of u ph] show ?thesis
      by (auto simp: records_inv_def delete_conv')
  next
    case (broke u ph st)
    with dw db w b x v [of u ph] show ?thesis
      by (auto simp: records_inv_def delete_conv')
  next
    case (fell u ph st)
    with dw db w b x v [of u ph] show ?thesis
      by (auto simp: records_inv_def update_conv' in_page_def)
  next
    case (dropped u)
    with dw db w b x show ?thesis by (auto simp: records_inv_def delete_conv')
  qed
qed


lemma run_inv_moves: "run_inv f c \<Longrightarrow> moves f c c' \<Longrightarrow> run_inv f c'"
  unfolding run_inv_def
  using tasks_inv_moves console_inv_moves budget_inv_moves net_inv_moves records_inv_moves
    fallback_inv_moves
  by blast

lemma run_inv_step: "run_inv f (core_of y) \<Longrightarrow> run_inv f (core_of (step f api args y e))"
  using run_inv_moves [OF _ step_moves] .

lemma run_inv_exec: "run_inv f (core_of y) \<Longrightarrow> run_inv f (core_of (exec f api args y es))"
  by (induction es arbitrary: y) (simp_all add: exec_simps run_inv_step)

lemma run_start_fields:
  "visited (sess (run_start now q s)) = {||}"
  "pagesScanned (sess (run_start now q s)) = 0"
  "workingLinks (sess (run_start now q s)) = []"
  "brokenLinks (sess (run_start now q s)) = []"
  "duplicateContentIssues (sess (run_start now q s)) = []"
  "externalLinks (sess (run_start now q s)) = []"
  "contentHashes (sess (run_start now q s)) = contentHashes s"
  "queue (run_start now q s) = q"
  "console (run_start now q s) = []"
  "net (run_start now q s) = []"
  "tasks (run_start now q s) = []"
  "errors (performanceMetrics (sess (run_start now q s))) = 0"
  by (simp_all add: run_start_def runCrawl_reset_def)

lemma run_inv_start: "run_inv f (core_of (run_start now q s))"
  by (simp add: run_inv_def tasks_inv_def console_inv_def budget_inv_def net_inv_def
        records_inv_def fallback_inv_def core_of_def run_start_fields fcard_fempty
        split: source_file.splits)

lemma run_inv_reached: "run_inv f (core_of (exec f api args (run_start now q s0) es))"
  by (rule run_inv_exec) (rule run_inv_start)


section \<open>The page budget\<close>

lemma sample_start_fields:
  "visited (sess sample_start) = {||}"
  "queue sample_start = [''https://example.com/'']"
  "console sample_start = []"
  "net sample_start = []"
  "tasks sample_start = []"
  "contentHashes (sess sample_start) = []"
  "duplicateContentIssues (sess sample_start) = []"
  "workingLinks (sess sample_start) = []"
  "brokenLinks (sess sample_start) = []"
  "externalLinks (sess sample_start) = []"
  "pagesScanned (sess sample_start) = 0"
  by (simp_all add: sample_start_def run_start_fields module_load_def)

lemma sample_normalize:
  "normalizeUrl sample_api ''https://example.com/'' = ''https://example.com/''"
  "normalizeUrl sample_api ''https://example.com/a'' = ''https://example.com/a''"
  "normalizeUrl sample_api ''https://example.com/x'' = ''https://example.com/x''"
  "normalizeUrl sample_api ''https://example.com/y'' = ''https://example.com/y''"
  "normalizeUrl sample_api ''https://example.com/z'' = ''https://example.com/z''"
  "normalizeUrl sample_api ''HTTPS://EXAMPLE.COM/a'' = ''https://example.com/a''"
  "normalizeUrl sample_api ''https://example.com/a#top'' = ''https://example.com/a#top''"
  "normalizeUrl sample_api ''/about'' = ''/about''"
  by (simp_all add: normalizeUrl_def sample_api_def sample_href_table_def)

lemma crawlPage_enter_visited:
  "visited (sess (crawlPage_enter api u y)) =
     (if normalizeUrl api u |\<in>| visited (sess y) \<or> MAX_PAGES \<le> fcard (visited (sess y))
      then visited (sess y) else finsert (normalizeUrl api u) (visited (sess y)))"
  by (simp add: crawlPage_enter_def admit_def Let_def)

lemma crawlPage_enter_crawler_js_visited:
  "visited (sess (crawlPage_enter_crawler_js u y)) =
     (if u |\<in>| visited (sess y) \<or> MAX_PAGES_crawler_js \<le> fcard (visited (sess y))
      then visited (sess y) else finsert u (visited (sess y)))"
  by (simp add: crawlPage_enter_crawler_js_def admit_def Let_def)

lemma crawlPage_enter_console:
  "console (crawlPage_enter api u y) =
     (if normalizeUrl api u |\<in>| visited (sess y) \<or> MAX_PAGES \<le> fcard (visited (sess y))
      then console y
      else console y @ [Crawling (normalizeUrl api u) (Suc (fcard (visited (sess y))))])"
  by (simp add: crawlPage_enter_def admit_def Let_def fcard_finsert_if)

lemma crawlPage_enter_crawler_js_console:
  "console (crawlPage_enter_crawler_js u y) =
     (if u |\<in>| visited (sess y) \<or> MAX_PAGES_crawler_js \<le> fcard (visited (sess y))
      then console y
      else console y @ [Crawling u (Suc (fcard (visited (sess y))))])"
  by (simp add: crawlPage_enter_crawler_js_def admit_def Let_def fcard_finsert_if)

text \<open>
  Claim C3. In a run of either source file, whatever the interleaving of invocations and
  completions, the visited set never holds more than the page budget, no admission has
  logged a size above the budget, and the first segment of crawlPage adds to the visited
  set only when its size is strictly below the budget.
\<close>

theorem visited_never_exceeds_budget:
  "fcard (visited (sess (exec Part_000 api args (run_start now q s0) es))) \<le> MAX_PAGES \<and>
   fcard (visited (sess (exec Crawler_js api args (run_start now q s0) es)))
     \<le> MAX_PAGES_crawler_js \<and>
   (\<forall>l \<in> set (console (exec Part_000 api args (run_start now q s0) es)).
      crawling_size l \<le> MAX_PAGES) \<and>
   (\<forall>l \<in> set (console (exec Crawler_js api args (run_start now q s0) es)).
      crawling_size l \<le> MAX_PAGES_crawler_js) \<and>
   (visited (sess (crawlPage_enter api u y)) \<noteq> visited (sess y)
      \<longrightarrow> fcard (visited (sess y)) < MAX_PAGES) \<and>
   (visited (sess (crawlPage_enter_crawler_js u y)) \<noteq> visited (sess y)
      \<longrightarrow> fcard (visited (sess y)) < MAX_PAGES_crawler_js)"
proof -
  have "budget_inv f (core_of (exec f api args (run_start now q s0) es))" for f
    using run_inv_reached [of f api args now q s0 es] by (simp add: run_inv_def)
  then have a: "fcard (visited (sess (exec f api args (run_start now q s0) es))) \<le> max_pages f"
    and d: "\<forall>l \<in> set (console (exec f api args (run_start now q s0) es)).
      crawling_size l \<le> max_pages f" for f
    by (simp_all add: budget_inv_def core_of_fields)
  have b: "visited (sess (crawlPage_enter api u y)) \<noteq> visited (sess y)
      \<longrightarrow> fcard (visited (sess y)) < MAX_PAGES"
    by (auto simp: crawlPage_enter_visited split: if_splits)
  have c: "visited (sess (crawlPage_enter_crawler_js u y)) \<noteq> visited (sess y)
      \<longrightarrow> fcard (visited (sess y)) < MAX_PAGES_crawler_js"
    by (auto simp: crawlPage_enter_crawler_js_visited split: if_splits)
  show ?thesis
    using a [of Part_000] a [of Crawler_js] b c d [of Part_000] d [of Crawler_js]
    by (simp add: max_pages_def)
qed

theorem visited_never_exceeds_budget_witness:
  "fcard (visited (sess (exec Part_000 sample_api sample_args sample_start
      [Invoke ''https://example.com/x'', Invoke ''https://example.com/y'']))) \<le> MAX_PAGES \<and>
   console (exec Part_000 sample_api sample_args sample_start
      [Invoke ''https://example.com/x'', Invoke ''https://example.com/y''])
     = [Crawling ''https://example.com/x'' 1, Crawling ''https://example.com/y'' 2] \<and>
   crawling_size (Crawling ''https://example.com/y'' 2) \<le> MAX_PAGES \<and>
   visited (sess (crawlPage_enter sample_api ''https://example.com/x'' sample_start))
     = {|''https://example.com/x''|} \<and>
   visited (sess (crawlPage_enter sample_api ''https://example.com/x'' sample_start))
     \<noteq> visited (sess sample_start) \<and>
   fcard (visited (sess sample_start)) < MAX_PAGES \<and>
   visited (sess (crawlPage_enter_crawler_js ''https://example.com/x'' sample_start))
     \<noteq> visited (sess sample_start) \<and>
   fcard (visited (sess sample_start)) < MAX_PAGES_crawler_js"
proof -
  have e: "visited (sess (crawlPage_enter sample_api ''https://example.com/x'' sample_start))
      = {|''https://example.com/x''|}"
    by (simp add: crawlPage_enter_visited sample_start_fields sample_normalize fcard_fempty
          MAX_PAGES_def)
  have e': "visited (sess (crawlPage_enter_crawler_js ''https://example.com/x'' sample_start))
      = {|''https://example.com/x''|}"
    by (simp add: crawlPage_enter_crawler_js_visited sample_start_fields fcard_fempty
          MAX_PAGES_crawler_js_def)
  have c: "console (exec Part_000 sample_api sample_args sample_start
      [Invoke ''https://example.com/x'', Invoke ''https://example.com/y''])
     = [Crawling ''https://example.com/x'' 1, Crawling ''https://example.com/y'' 2]"
    by (simp add: exec_def step_Invoke crawlPage_enter_console crawlPage_enter_visited
          sample_start_fields sample_normalize fcard_fempty fcard_finsert_if MAX_PAGES_def)
  show ?thesis
    using visited_never_exceeds_budget [of sample_api sample_args 1 "[''https://example.com/'']"
        "module_load 0" "[Invoke ''https://example.com/x'', Invoke ''https://example.com/y'']"
        "''https://example.com/x''" sample_start, folded sample_start_def]
      e e' c
    by (simp add: sample_start_fields)
qed

section \<open>At-most-once admission\<close>






section \<open>Normalisation\<close>

lemma sample_api_idempotent: "href_idempotent sample_api"
  unfolding href_idempotent_def sample_api_def
  by (auto simp: sample_href_table_def split: if_splits)

text \<open>
  Claim C9. normalizeUrl is idempotent, given that the runtime's URL parser returns a
  serialisation unchanged when it parses it again.
\<close>

theorem normalizeUrl_idempotent:
  "href_idempotent api \<Longrightarrow> normalizeUrl api (normalizeUrl api u) = normalizeUrl api u"
  unfolding href_idempotent_def normalizeUrl_def
  by (auto split: option.splits)

theorem normalizeUrl_idempotent_witness:
  "href_idempotent sample_api \<and>
   normalizeUrl sample_api ''HTTPS://EXAMPLE.COM/a'' = ''https://example.com/a'' \<and>
   normalizeUrl sample_api (normalizeUrl sample_api ''HTTPS://EXAMPLE.COM/a'') =
     normalizeUrl sample_api ''HTTPS://EXAMPLE.COM/a'' \<and>
   normalizeUrl sample_api (normalizeUrl sample_api ''/about'') =
     normalizeUrl sample_api ''/about''"
  using normalizeUrl_idempotent [OF sample_api_idempotent, of "''HTTPS://EXAMPLE.COM/a''"]
    normalizeUrl_idempotent [OF sample_api_idempotent, of "''/about''"]
    sample_api_idempotent
  by (simp add: sample_normalize)

lemma normalizeUrl_fixed:
  "href_idempotent api \<Longrightarrow> normalizeUrl api (normalizeUrl api u) = normalizeUrl api u"
  unfolding href_idempotent_def normalizeUrl_def
  by (auto split: option.splits)

lemma moves_visited:
  assumes "moves f c c'"
  shows "c_visited c' = c_visited c \<or> c_console c' \<noteq> c_console c"
  using assms by cases simp_all

lemma step_console:
  "(\<forall>u. e \<noteq> Invoke u) \<Longrightarrow> console (step f api args y e) = console y"
  by (cases e; cases f)
     (auto simp: step_def suspend_simps finish_simps crawlPage_goto_def
        crawlPage_process_frame crawlPage_extract_frame crawlPage_catch_def
        crawlPage_complete_def crawlPage_complete_crawler_js_def Let_def run_lighthouse_def
        crawlPage_threw_def crawlPage_threw_crawler_js_def crawlPage_catch_crawler_js_def
        fallback_success_def
        split: option.splits phase.splits)

lemma step_visited:
  assumes "\<forall>u. e \<noteq> Invoke u"
  shows "visited (sess (step f api args y e)) = visited (sess y)"
  using moves_visited [OF step_moves [of f y api args e]] step_console [OF assms, of f api args y]
  by (simp add: core_of_fields)

lemma visited_normalized_step:
  assumes h: "href_idempotent api" and v: "visited_normalized api y"
  shows "visited_normalized api (step Part_000 api args y e)"
proof (cases "\<exists>u. e = Invoke u")
  case True
  then obtain u where e: "e = Invoke u" by blast
  show ?thesis
    using v normalizeUrl_fixed [OF h, of u]
    unfolding e step_Invoke visited_normalized_def crawlPage_enter_visited
    by auto
next
  case False
  then have "visited (sess (step Part_000 api args y e)) = visited (sess y)"
    by (intro step_visited) simp
  then show ?thesis using v by (simp add: visited_normalized_def)
qed

lemma visited_normalized_reached:
  assumes "href_idempotent api"
  shows "visited_normalized api (exec Part_000 api args (run_start now q s0) es)"
proof -
  have "visited_normalized api y \<Longrightarrow> visited_normalized api (exec Part_000 api args y es)" for y
    unfolding exec_def
    by (induction es arbitrary: y) (simp_all add: visited_normalized_step [OF assms])
  moreover have "visited_normalized api (run_start now q s0)"
    by (simp add: visited_normalized_def run_start_fields)
  ultimately show ?thesis by blast
qed

lemma crawlPage_skip:
  "normalizeUrl api u |\<in>| visited (sess y) \<or> MAX_PAGES \<le> fcard (visited (sess y)) \<Longrightarrow>
   crawlPage api env args u y = y"
  by (auto simp: crawlPage_def admit_def Let_def)

lemma crawlPage_enter_skip:
  "normalizeUrl api u |\<in>| visited (sess y) \<or> MAX_PAGES \<le> fcard (visited (sess y)) \<Longrightarrow>
   crawlPage_enter api u y = y"
  by (auto simp: crawlPage_enter_def admit_def Let_def)

lemma crawlPage_crawler_js_skip:
  "u |\<in>| visited (sess y) \<or> MAX_PAGES_crawler_js \<le> fcard (visited (sess y)) \<Longrightarrow>
   crawlPage_crawler_js api env args u y = y \<and> crawlPage_enter_crawler_js u y = y"
  by (auto simp: crawlPage_crawler_js_def crawlPage_enter_crawler_js_def admit_def Let_def)

text \<open>
  Claim C10. An invocation of crawlPage for a URL that is in the visited set, or made when
  the visited set has reached the page budget, returns the whole system as it found it:
  the session state, the queue, the console, the requests sent and the suspended
  invocations. In \<^verbatim>\<open>src/unnamed/part_000\<close> the check is made on the normalised URL; at every
  point of a run the visited URLs are normalised ones, which normalizeUrl returns
  unchanged.
\<close>

theorem crawlPage_skip_changes_nothing:
  "(href_idempotent api \<and> y = exec Part_000 api args (run_start now q s0) es \<and>
    (u |\<in>| visited (sess y) \<or> MAX_PAGES \<le> fcard (visited (sess y)))
      \<longrightarrow> crawlPage api env args u y = y \<and> crawlPage_enter api u y = y) \<and>
   (normalizeUrl api u |\<in>| visited (sess z) \<or> MAX_PAGES \<le> fcard (visited (sess z))
      \<longrightarrow> crawlPage api env args u z = z \<and> crawlPage_enter api u z = z) \<and>
   (u |\<in>| visited (sess z) \<or> MAX_PAGES_crawler_js \<le> fcard (visited (sess z))
      \<longrightarrow> crawlPage_crawler_js api env args u z = z \<and> crawlPage_enter_crawler_js u z = z)"
proof (intro conjI impI)
  assume a: "href_idempotent api \<and> y = exec Part_000 api args (run_start now q s0) es \<and>
    (u |\<in>| visited (sess y) \<or> MAX_PAGES \<le> fcard (visited (sess y)))"
  then have "visited_normalized api y"
    using visited_normalized_reached [of api args now q s0 es] by simp
  with a have g: "normalizeUrl api u |\<in>| visited (sess y) \<or> MAX_PAGES \<le> fcard (visited (sess y))"
    by (auto simp: visited_normalized_def)
  from g show "crawlPage api env args u y = y" by (rule crawlPage_skip)
  from g show "crawlPage_enter api u y = y" by (rule crawlPage_enter_skip)
next
  assume g: "normalizeUrl api u |\<in>| visited (sess z) \<or> MAX_PAGES \<le> fcard (visited (sess z))"
  from g show "crawlPage api env args u z = z" by (rule crawlPage_skip)
  from g show "crawlPage_enter api u z = z" by (rule crawlPage_enter_skip)
next
  assume g: "u |\<in>| visited (sess z) \<or> MAX_PAGES_crawler_js \<le> fcard (visited (sess z))"
  from crawlPage_crawler_js_skip [OF g]
  show "crawlPage_crawler_js api env args u z = z" and "crawlPage_enter_crawler_js u z = z"
    by simp_all
qed

lemma crawlPage_enter_tasks:
  "tasks (crawlPage_enter api u y) =
     (if normalizeUrl api u |\<in>| visited (sess y) \<or> MAX_PAGES \<le> fcard (visited (sess y))
      then tasks y else (normalizeUrl api u, Delaying) # tasks y)"
  by (simp add: crawlPage_enter_def admit_def Let_def)

lemma two_admitted_visited:
  "visited (sess two_admitted) = {|''https://example.com/y'', ''https://example.com/x''|}"
proof -
  have o: "(\<forall>u. Wake v \<noteq> Invoke u)" "(\<forall>u. Opened v \<noteq> Invoke u)" for v by simp_all
  show ?thesis
    by (simp add: two_admitted_def exec_def step_visited [OF o(1)] step_visited [OF o(2)]
          step_Invoke crawlPage_enter_visited sample_normalize sample_start_fields
          fcard_fempty fcard_finsert_if MAX_PAGES_def)
qed

theorem crawlPage_skip_changes_nothing_witness:
  "href_idempotent sample_api \<and>
   ''https://example.com/x'' |\<in>| visited (sess two_admitted) \<and>
   normalizeUrl sample_api ''https://example.com/x'' |\<in>| visited (sess two_admitted) \<and>
   crawlPage sample_api env_same_page sample_args ''https://example.com/x'' two_admitted
     = two_admitted \<and>
   crawlPage_crawler_js sample_api env_same_page sample_args ''https://example.com/x''
     two_admitted = two_admitted"
  using crawlPage_skip_changes_nothing [of sample_api two_admitted sample_args 1
      "[''https://example.com/'']" "module_load 0"
      "[Invoke ''https://example.com/x'', Wake ''https://example.com/x'',
        Opened ''https://example.com/x'',
        Invoke ''https://example.com/y'', Wake ''https://example.com/y'',
        Opened ''https://example.com/y'']"
      "''https://example.com/x''" env_same_page two_admitted,
      folded sample_start_def, folded two_admitted_def]
    sample_api_idempotent
  by (simp add: two_admitted_visited sample_normalize)


section \<open>One invocation, run to its end\<close>

lemma phase_of_segments:
  "phase_of (crawlPage_goto u y) v = (if v = u then Some Fetching else phase_of y v)"
  "phase_of (crawlPage_process api b d u p y) = phase_of y"
  "phase_of (crawlPage_extract api m b d u p ls y) = phase_of y"
  by (simp_all add: crawlPage_goto_def phase_of_simps)
     (simp_all add: phase_of_def crawlPage_process_frame crawlPage_extract_frame fun_eq_iff)

lemma exec_resources:
  "phase_of y u = Some Checking \<Longrightarrow>
   exec f api args y (map (ResourceFailed u) rs @ es) =
     exec f api args (y\<lparr>sess := foldl (\<lambda>s r. resource_failed r s) (sess y) rs\<rparr>) es"
proof (induction rs arbitrary: y)
  case Nil
  then show ?case by simp
next
  case (Cons r rs)
  have "phase_of (y\<lparr>sess := resource_failed r (sess y)\<rparr>) u = Some Checking"
    using Cons.prems by (simp add: phase_of_simps)
  from Cons.IH [OF this] Cons.prems show ?case
    by (simp add: exec_simps step_ResourceFailed)
qed

lemma resources_frame:
  "visited (foldl (\<lambda>s r. resource_failed r s) s rs) = visited s"
  "workingLinks (foldl (\<lambda>s r. resource_failed r s) s rs) = workingLinks s"
  "brokenLinks (foldl (\<lambda>s r. resource_failed r s) s rs) = brokenLinks s"
  "pagesScanned (foldl (\<lambda>s r. resource_failed r s) s rs) = pagesScanned s"
  "contentHashes (foldl (\<lambda>s r. resource_failed r s) s rs) = contentHashes s"
  "duplicateContentIssues (foldl (\<lambda>s r. resource_failed r s) s rs) = duplicateContentIssues s"
  "externalLinks (foldl (\<lambda>s r. resource_failed r s) s rs) = externalLinks s"
  by (rule foldl_frame [where g = visited], simp add: resource_failed_frame,
      rule foldl_frame [where g = workingLinks], simp add: resource_failed_frame,
      rule foldl_frame [where g = brokenLinks], simp add: resource_failed_frame,
      rule foldl_frame [where g = pagesScanned], simp add: resource_failed_frame,
      rule foldl_frame [where g = contentHashes], simp add: resource_failed_frame,
      rule foldl_frame [where g = duplicateContentIssues], simp add: resource_failed_frame,
      rule foldl_frame [where g = externalLinks], simp add: resource_failed_frame)

text \<open>The four courses of an invocation of \<^verbatim>\<open>src/unnamed/part_000\<close>.\<close>

lemma crawlPage_unopened:
  assumes a: "admit MAX_PAGES (normalizeUrl api u) y = Some y1"
    and o: "open_page env (normalizeUrl api u) = Some err"
  shows "crawlPage api env args u y =
     crawlPage_catch (normalizeUrl api u) err (suspend (normalizeUrl api u) Opening y1)"
  using admit_Some(14) [OF a]
  by (simp add: crawlPage_def a o crawlPage_events_def exec_simps step_Wake step_Threw
        crawlPage_threw_def phase_of_simps Let_def)

lemma crawlPage_unrendered:
  assumes a: "admit MAX_PAGES (normalizeUrl api u) y = Some y1"
    and o: "open_page env (normalizeUrl api u) = None"
    and r: "render env (normalizeUrl api u) = Inl err"
  shows "crawlPage api env args u y =
     crawlPage_catch (normalizeUrl api u) err
       (suspend (normalizeUrl api u) (Failing err)
          (crawlPage_goto (normalizeUrl api u) (suspend (normalizeUrl api u) Opening y1)))"
  using admit_Some(14) [OF a]
  by (simp add: crawlPage_def a o r crawlPage_events_def exec_simps step_Wake step_Opened
        step_Threw step_Closed crawlPage_threw_def phase_of_simps phase_of_segments Let_def)

lemma crawlPage_unclosed:
  assumes a: "admit MAX_PAGES (normalizeUrl api u) y = Some y1"
    and o: "open_page env (normalizeUrl api u) = None"
    and r: "render env (normalizeUrl api u) = Inr page"
    and c: "close_page env (normalizeUrl api u) = Some err"
  shows "crawlPage api env args u y =
     crawlPage_catch (normalizeUrl api u) err
       (suspend (normalizeUrl api u) (Failing err)
          (suspend (normalizeUrl api u) (Closing page)
             (crawlPage_goto (normalizeUrl api u) (suspend (normalizeUrl api u) Opening y1))))"
  using admit_Some(14) [OF a]
  by (simp add: crawlPage_def a o r c crawlPage_events_def exec_simps step_Wake step_Opened
        step_Loaded step_Threw step_Closed crawlPage_threw_def phase_of_simps
        phase_of_segments Let_def)

lemma crawlPage_rendered:
  assumes a: "admit MAX_PAGES (normalizeUrl api u) y = Some y1"
    and o: "open_page env (normalizeUrl api u) = None"
    and r: "render env (normalizeUrl api u) = Inr page"
    and c: "close_page env (normalizeUrl api u) = None"
  shows "crawlPage api env args u y =
     crawlPage_complete (normalizeUrl api u) (elapsed env (normalizeUrl api u))
       ((page_processed api args (normalizeUrl api u) page y1)
          \<lparr>sess := foldl (\<lambda>s r. resource_failed r s)
                     (sess (page_processed api args (normalizeUrl api u) page y1))
                     (failed_checks env (normalizeUrl api u))\<rparr>)"
proof -
  let ?n = "normalizeUrl api u"
  have p: "phase_of (page_processed api args ?n page y1) ?n = Some Checking"
    by (simp add: page_processed_def phase_of_simps)
  have "exec Part_000 api args y1 (crawlPage_events env ?n) =
      exec Part_000 api args (page_processed api args ?n page y1)
        (map (ResourceFailed ?n) (failed_checks env ?n) @ [Checked ?n (elapsed env ?n)])"
    using admit_Some(14) [OF a]
    by (simp add: o r c crawlPage_events_def exec_simps step_Wake step_Opened
          step_Loaded step_Closed phase_of_simps phase_of_segments page_processed_def)
  also have "\<dots> = crawlPage_complete ?n (elapsed env ?n)
       ((page_processed api args ?n page y1)
          \<lparr>sess := foldl (\<lambda>s r. resource_failed r s)
                     (sess (page_processed api args ?n page y1)) (failed_checks env ?n)\<rparr>)"
    using p by (simp add: exec_resources exec_simps(1,2) step_Checked phase_of_simps)
  finally show ?thesis by (simp add: crawlPage_def a Let_def)
qed

section \<open>The link loop on the queue and on the external links\<close>

lemma process_link_queue:
  "queue (process_link api m b d u y a) = enqueue_link api m b d (visited (sess y)) (queue y) a"
  by (simp add: process_link_def enqueue_link_def Let_def split: option.splits)

lemma process_link_external:
  "externalLinks (sess (process_link api m b d u y a)) =
     externalLinks (sess y) @ external_of_link api b d u a"
  by (simp add: process_link_def external_of_link_def Let_def split: option.splits)

lemma process_links_queue:
  "queue (process_links api m b d u ls y) =
     foldl (enqueue_link api m b d (visited (sess y))) (queue y) ls"
  unfolding process_links_def
  by (induction ls arbitrary: y) (simp_all add: process_link_queue process_link_frame)

lemma process_links_external:
  "externalLinks (sess (process_links api m b d u ls y)) =
     externalLinks (sess y) @ concat (map (external_of_link api b d u) ls)"
  unfolding process_links_def
  by (induction ls arbitrary: y) (simp_all add: process_link_external)

lemma crawlPage_extract_queue:
  "queue (crawlPage_extract api m b d u p ls y) =
     foldl (enqueue_link api m b d (visited (sess y))) (queue y) ls"
  "externalLinks (sess (crawlPage_extract api m b d u p ls y)) =
     externalLinks (sess y) @ concat (map (external_of_link api b d u) ls) @
     extractLinks api p u b"
  by (simp_all add: crawlPage_extract_def Let_def process_links_queue process_links_external)

lemma crawlPage_process_queue:
  "queue (crawlPage_process api b d u p y) =
     foldl (enqueue_link api MAX_PAGES b d (visited (sess y))) (queue y) (page_links p)"
  "externalLinks (sess (crawlPage_process api b d u p y)) =
     externalLinks (sess y) @ concat (map (external_of_link api b d u) (page_links p)) @
     extractLinks api p u b"
  by (simp_all add: crawlPage_process_def crawlPage_extract_queue content_audits_frame)

lemma fingerprints:
  "contentHashes (duplicate_content_detection u h s) =
     (case map_of (contentHashes s) h of
        Some v \<Rightarrow> contentHashes s
      | None \<Rightarrow> AList.update h u (contentHashes s))"
  "duplicateContentIssues (duplicate_content_detection u h s) =
     (case map_of (contentHashes s) h of
        Some v \<Rightarrow> duplicateContentIssues s @
           [\<lparr>dup_url = u, duplicateOf = v, issue = ''Duplicate content detected''\<rparr>]
      | None \<Rightarrow> duplicateContentIssues s)"
  by (simp_all add: duplicate_content_detection_def split: option.splits)

section \<open>What one invocation leaves behind\<close>

lemma crawlPage_goto_simps:
  "sess (crawlPage_goto u y) = sess y"
  "queue (crawlPage_goto u y) = queue y"
  "console (crawlPage_goto u y) = console y"
  "net (crawlPage_goto u y) = net y @ [PageGoto u]"
  by (simp_all add: crawlPage_goto_def suspend_simps)

lemma page_processed_fields:
  assumes a: "admit m n y = Some y1"
  shows "net (page_processed api args n page y1) = net y @ [PageGoto n]"
    and "workingLinks (sess (page_processed api args n page y1)) = workingLinks (sess y)"
    and "brokenLinks (sess (page_processed api args n page y1)) = brokenLinks (sess y)"
    and "contentHashes (sess (page_processed api args n page y1)) =
           contentHashes (duplicate_content_detection n (pg_hash page) (sess y))"
    and "duplicateContentIssues (sess (page_processed api args n page y1)) =
           duplicateContentIssues (duplicate_content_detection n (pg_hash page) (sess y))"
    and "queue (page_processed api args n page y1) =
           foldl (enqueue_link api MAX_PAGES (arg_base args) (arg_baseDomain args)
                    (finsert n (visited (sess y))))
             (queue y) (page_links page)"
    and "externalLinks (sess (page_processed api args n page y1)) =
           externalLinks (sess y) @
           concat (map (external_of_link api (arg_base args) (arg_baseDomain args) n)
                     (page_links page)) @
           extractLinks api page n (arg_base args)"
  using admit_Some [OF a]
  by (simp_all add: page_processed_def suspend_simps crawlPage_process_frame
        crawlPage_process_queue crawlPage_goto_simps fingerprints split: option.splits)

lemma crawlPage_complete_fields:
  "net (crawlPage_complete u n y) = net y"
  "queue (crawlPage_complete u n y) = queue y"
  "workingLinks (sess (crawlPage_complete u n y)) =
     workingLinks (sess y) @ [\<lparr>lr_url = u, lr_status = StatusCode 200\<rparr>]"
  "brokenLinks (sess (crawlPage_complete u n y)) = brokenLinks (sess y)"
  "contentHashes (sess (crawlPage_complete u n y)) = contentHashes (sess y)"
  "duplicateContentIssues (sess (crawlPage_complete u n y)) = duplicateContentIssues (sess y)"
  "externalLinks (sess (crawlPage_complete u n y)) = externalLinks (sess y)"
  by (simp_all add: crawlPage_complete_def finish_simps mark_working_frame update_metrics_frame)

lemma crawlPage_rendered_fields:
  assumes a: "admit MAX_PAGES (normalizeUrl api u) y = Some y1"
    and o: "open_page env (normalizeUrl api u) = None"
    and r: "render env (normalizeUrl api u) = Inr page"
    and c: "close_page env (normalizeUrl api u) = None"
  shows "net (crawlPage api env args u y) = net y @ [PageGoto (normalizeUrl api u)]"
    and "workingLinks (sess (crawlPage api env args u y)) =
           workingLinks (sess y) @ [\<lparr>lr_url = normalizeUrl api u, lr_status = StatusCode 200\<rparr>]"
    and "brokenLinks (sess (crawlPage api env args u y)) = brokenLinks (sess y)"
    and "contentHashes (sess (crawlPage api env args u y)) =
           contentHashes (duplicate_content_detection (normalizeUrl api u) (pg_hash page) (sess y))"
    and "duplicateContentIssues (sess (crawlPage api env args u y)) =
           duplicateContentIssues
             (duplicate_content_detection (normalizeUrl api u) (pg_hash page) (sess y))"
    and "queue (crawlPage api env args u y) =
           foldl (enqueue_link api MAX_PAGES (arg_base args) (arg_baseDomain args)
                    (finsert (normalizeUrl api u) (visited (sess y))))
             (queue y) (page_links page)"
    and "externalLinks (sess (crawlPage api env args u y)) =
           externalLinks (sess y) @
           concat (map (external_of_link api (arg_base args) (arg_baseDomain args)
                          (normalizeUrl api u)) (page_links page)) @
           extractLinks api page (normalizeUrl api u) (arg_base args)"
  unfolding crawlPage_rendered [OF a o r c]
  by (simp_all add: crawlPage_complete_fields resources_frame page_processed_fields [OF a])

lemma crawlPage_catch_fields:
  "net (crawlPage_catch u err y) = net y"
  "queue (crawlPage_catch u err y) = queue y"
  "workingLinks (sess (crawlPage_catch u err y)) = workingLinks (sess y)"
  "brokenLinks (sess (crawlPage_catch u err y)) =
     brokenLinks (sess y) @ [\<lparr>lr_url = u, lr_status = StatusText (err_message err)\<rparr>]"
  "contentHashes (sess (crawlPage_catch u err y)) = contentHashes (sess y)"
  "duplicateContentIssues (sess (crawlPage_catch u err y)) = duplicateContentIssues (sess y)"
  "externalLinks (sess (crawlPage_catch u err y)) = externalLinks (sess y)"
  by (simp_all add: crawlPage_catch_def finish_simps mark_broken_frame)

lemma crawlPage_failed_fields:
  assumes a: "admit MAX_PAGES (normalizeUrl api u) y = Some y1"
    and f: "open_page env (normalizeUrl api u) = Some err \<or>
            open_page env (normalizeUrl api u) = None \<and>
            (render env (normalizeUrl api u) = Inl err \<or>
             (\<exists>page. render env (normalizeUrl api u) = Inr page) \<and>
             close_page env (normalizeUrl api u) = Some err)"
  shows "net (crawlPage api env args u y) =
           net y @ (if open_page env (normalizeUrl api u) = None
                    then [PageGoto (normalizeUrl api u)] else [])"
    and "workingLinks (sess (crawlPage api env args u y)) = workingLinks (sess y)"
    and "brokenLinks (sess (crawlPage api env args u y)) =
           brokenLinks (sess y) @
             [\<lparr>lr_url = normalizeUrl api u, lr_status = StatusText (err_message err)\<rparr>]"
    and "contentHashes (sess (crawlPage api env args u y)) = contentHashes (sess y)"
    and "duplicateContentIssues (sess (crawlPage api env args u y)) =
           duplicateContentIssues (sess y)"
    and "queue (crawlPage api env args u y) = queue y"
proof -
  let ?n = "normalizeUrl api u"
  consider (1) "open_page env ?n = Some err"
    | (2) "open_page env ?n = None" "render env ?n = Inl err"
    | (3) page where "open_page env ?n = None" "render env ?n = Inr page"
        "close_page env ?n = Some err"
    using f by auto
  then have "net (crawlPage api env args u y) =
           net y @ (if open_page env ?n = None then [PageGoto ?n] else []) \<and>
      workingLinks (sess (crawlPage api env args u y)) = workingLinks (sess y) \<and>
      brokenLinks (sess (crawlPage api env args u y)) =
           brokenLinks (sess y) @ [\<lparr>lr_url = ?n, lr_status = StatusText (err_message err)\<rparr>] \<and>
      contentHashes (sess (crawlPage api env args u y)) = contentHashes (sess y) \<and>
      duplicateContentIssues (sess (crawlPage api env args u y)) =
           duplicateContentIssues (sess y) \<and>
      queue (crawlPage api env args u y) = queue y"
  proof cases
    case 1
    show ?thesis
      unfolding crawlPage_unopened [OF a 1] using admit_Some [OF a] 1
      by (simp add: crawlPage_catch_fields suspend_simps)
  next
    case 2
    show ?thesis
      unfolding crawlPage_unrendered [OF a 2] using admit_Some [OF a] 2
      by (simp add: crawlPage_catch_fields suspend_simps crawlPage_goto_simps)
  next
    case 3
    show ?thesis
      unfolding crawlPage_unclosed [OF a 3] using admit_Some [OF a] 3
      by (simp add: crawlPage_catch_fields suspend_simps crawlPage_goto_simps)
  qed
  then show "net (crawlPage api env args u y) =
           net y @ (if open_page env ?n = None then [PageGoto ?n] else [])"
    and "workingLinks (sess (crawlPage api env args u y)) = workingLinks (sess y)"
    and "brokenLinks (sess (crawlPage api env args u y)) =
           brokenLinks (sess y) @ [\<lparr>lr_url = ?n, lr_status = StatusText (err_message err)\<rparr>]"
    and "contentHashes (sess (crawlPage api env args u y)) = contentHashes (sess y)"
    and "duplicateContentIssues (sess (crawlPage api env args u y)) =
           duplicateContentIssues (sess y)"
    and "queue (crawlPage api env args u y) = queue y"
    by simp_all
qed

text \<open>The courses of an invocation of \<^verbatim>\<open>src/crawler.js\<close>.\<close>

lemma crawlPage_catch_crawler_js_fields:
  "net (crawlPage_catch_crawler_js u err y) = net y @ [AxiosGet u]"
  "queue (crawlPage_catch_crawler_js u err y) = queue y"
  "workingLinks (sess (crawlPage_catch_crawler_js u err y)) = workingLinks (sess y)"
  "brokenLinks (sess (crawlPage_catch_crawler_js u err y)) =
     brokenLinks (sess y) @ [\<lparr>lr_url = u, lr_status = error_status err\<rparr>]"
  "contentHashes (sess (crawlPage_catch_crawler_js u err y)) = contentHashes (sess y)"
  "duplicateContentIssues (sess (crawlPage_catch_crawler_js u err y)) =
     duplicateContentIssues (sess y)"
  "phase_of (crawlPage_catch_crawler_js u err y) u = Some FallingBack"
  by (simp_all add: crawlPage_catch_crawler_js_def Let_def suspend_simps mark_broken_frame
        phase_of_simps)

lemma fallback_success_fields:
  "net (fallback_success u st p y) = net y"
  "queue (fallback_success u st p y) = queue y"
  "workingLinks (sess (fallback_success u st p y)) =
     workingLinks (sess y) @ [\<lparr>lr_url = u, lr_status = StatusCode st\<rparr>]"
  "brokenLinks (sess (fallback_success u st p y)) = brokenLinks (sess y)"
  "contentHashes (sess (fallback_success u st p y)) = contentHashes (sess y)"
  "duplicateContentIssues (sess (fallback_success u st p y)) = duplicateContentIssues (sess y)"
  by (simp_all add: fallback_success_def Let_def finish_simps mark_working_frame)

lemma fallback_fields:
  assumes p: "phase_of yk u = Some ph"
    and t: "ph = Opening \<or> ph = Fetching \<or> (\<exists>page. ph = Evaluating page)"
  shows "net (exec Crawler_js api args yk (fallback_events env u err)) = net yk @ [AxiosGet u]"
    and "brokenLinks (sess (exec Crawler_js api args yk (fallback_events env u err))) =
           brokenLinks (sess yk) @ [\<lparr>lr_url = u, lr_status = error_status err\<rparr>]"
    and "workingLinks (sess (exec Crawler_js api args yk (fallback_events env u err))) =
           (case http_get env u of
              Inr res \<Rightarrow>
                workingLinks (sess yk) @ [\<lparr>lr_url = u, lr_status = StatusCode (fst res)\<rparr>]
            | Inl e \<Rightarrow> workingLinks (sess yk))"
    and "contentHashes (sess (exec Crawler_js api args yk (fallback_events env u err))) =
           contentHashes (sess yk)"
    and "duplicateContentIssues (sess (exec Crawler_js api args yk (fallback_events env u err))) =
           duplicateContentIssues (sess yk)"
    and "queue (exec Crawler_js api args yk (fallback_events env u err)) = queue yk"
proof -
  have c: "step Crawler_js api args yk (Threw u err) = crawlPage_catch_crawler_js u err yk"
    using p t by (auto simp: step_Threw crawlPage_threw_crawler_js_def)
  have e: "exec Crawler_js api args yk (fallback_events env u err) =
      (case http_get env u of
         Inr res \<Rightarrow> fallback_success u (fst res) (snd res) (crawlPage_catch_crawler_js u err yk)
       | Inl e \<Rightarrow> finish u (crawlPage_catch_crawler_js u err yk))"
    by (cases "http_get env u")
       (simp_all add: fallback_events_def exec_simps c step_Fallback
          crawlPage_catch_crawler_js_fields)
  show "net (exec Crawler_js api args yk (fallback_events env u err)) = net yk @ [AxiosGet u]"
    and "brokenLinks (sess (exec Crawler_js api args yk (fallback_events env u err))) =
           brokenLinks (sess yk) @ [\<lparr>lr_url = u, lr_status = error_status err\<rparr>]"
    and "workingLinks (sess (exec Crawler_js api args yk (fallback_events env u err))) =
           (case http_get env u of
              Inr res \<Rightarrow>
                workingLinks (sess yk) @ [\<lparr>lr_url = u, lr_status = StatusCode (fst res)\<rparr>]
            | Inl e \<Rightarrow> workingLinks (sess yk))"
    and "contentHashes (sess (exec Crawler_js api args yk (fallback_events env u err))) =
           contentHashes (sess yk)"
    and "duplicateContentIssues (sess (exec Crawler_js api args yk (fallback_events env u err))) =
           duplicateContentIssues (sess yk)"
    and "queue (exec Crawler_js api args yk (fallback_events env u err)) = queue yk"
    unfolding e
    by (cases "http_get env u";
        simp add: fallback_success_fields finish_simps crawlPage_catch_crawler_js_fields)+
qed

lemma crawlPage_crawler_js_unopened:
  assumes a: "admit MAX_PAGES_crawler_js u y = Some y1"
    and o: "open_page env u = Some err"
  shows "crawlPage_crawler_js api env args u y =
     exec Crawler_js api args (suspend u Opening y1) (fallback_events env u err)"
  using admit_Some(14) [OF a]
  by (simp add: crawlPage_crawler_js_def a o crawlPage_events_crawler_js_def exec_simps(1,2)
        step_Wake)

lemma crawlPage_crawler_js_unrendered:
  assumes a: "admit MAX_PAGES_crawler_js u y = Some y1"
    and o: "open_page env u = None"
    and r: "render env u = Inl err"
  shows "crawlPage_crawler_js api env args u y =
     exec Crawler_js api args (crawlPage_goto u (suspend u Opening y1))
       (fallback_events env u err)"
  using admit_Some(14) [OF a]
  by (simp add: crawlPage_crawler_js_def a o r crawlPage_events_crawler_js_def exec_simps(1,2)
        step_Wake step_Opened phase_of_simps)

lemma crawlPage_crawler_js_unevaluated:
  assumes a: "admit MAX_PAGES_crawler_js u y = Some y1"
    and o: "open_page env u = None"
    and r: "render env u = Inr page"
    and e: "eval_links env u = Inl err"
  shows "crawlPage_crawler_js api env args u y =
     exec Crawler_js api args
       (suspend u (Evaluating page)
          ((crawlPage_goto u (suspend u Opening y1))
             \<lparr>sess := content_audits u page (sess (crawlPage_goto u (suspend u Opening y1)))\<rparr>))
       (fallback_events env u err)"
  using admit_Some(14) [OF a]
  by (simp add: crawlPage_crawler_js_def a o r e crawlPage_events_crawler_js_def
        exec_simps(1,2) step_Wake step_Opened step_Loaded phase_of_simps phase_of_segments)

lemma crawlPage_crawler_js_rendered:
  assumes a: "admit MAX_PAGES_crawler_js u y = Some y1"
    and o: "open_page env u = None"
    and r: "render env u = Inr page"
    and e: "eval_links env u = Inr anchors"
  shows "crawlPage_crawler_js api env args u y =
     exec Crawler_js api args
       (crawlPage_complete_crawler_js u (arg_mainPageUrl args) (elapsed env u)
          ((page_processed_crawler_js api args u page anchors y1)
             \<lparr>sess := foldl (\<lambda>s r. resource_failed r s)
                        (sess (page_processed_crawler_js api args u page anchors y1))
                        (failed_checks env u)\<rparr>))
       (if u = arg_mainPageUrl args
        then [Audited u (fst (lighthouse env u)) (snd (lighthouse env u))] else [])"
proof -
  let ?pp = "page_processed_crawler_js api args u page anchors y1"
  let ?tl = "if u = arg_mainPageUrl args
        then [Audited u (fst (lighthouse env u)) (snd (lighthouse env u))] else []"
  have p: "phase_of ?pp u = Some Checking"
    by (simp add: page_processed_crawler_js_def phase_of_simps)
  have "exec Crawler_js api args y1 (crawlPage_events_crawler_js env (arg_mainPageUrl args) u) =
      exec Crawler_js api args ?pp
        (map (ResourceFailed u) (failed_checks env u) @ Checked u (elapsed env u) # ?tl)"
    using admit_Some(14) [OF a]
    by (simp add: o r e crawlPage_events_crawler_js_def exec_simps(1,2) step_Wake step_Opened
          step_Loaded step_Evaluated phase_of_simps phase_of_segments
          page_processed_crawler_js_def)
  also have "\<dots> = exec Crawler_js api args
       (crawlPage_complete_crawler_js u (arg_mainPageUrl args) (elapsed env u)
          (?pp\<lparr>sess := foldl (\<lambda>s r. resource_failed r s) (sess ?pp) (failed_checks env u)\<rparr>))
       ?tl"
    using p by (simp add: exec_resources exec_simps(1,2) step_Checked phase_of_simps)
  finally show ?thesis by (simp add: crawlPage_crawler_js_def a)
qed

lemma page_processed_crawler_js_fields:
  assumes a: "admit m u y = Some y1"
  shows "net (page_processed_crawler_js api args u page anchors y1) = net y @ [PageGoto u]"
    and "workingLinks (sess (page_processed_crawler_js api args u page anchors y1))
           = workingLinks (sess y)"
    and "brokenLinks (sess (page_processed_crawler_js api args u page anchors y1))
           = brokenLinks (sess y)"
    and "contentHashes (sess (page_processed_crawler_js api args u page anchors y1)) =
           contentHashes (duplicate_content_detection u (pg_hash page) (sess y))"
    and "duplicateContentIssues (sess (page_processed_crawler_js api args u page anchors y1)) =
           duplicateContentIssues (duplicate_content_detection u (pg_hash page) (sess y))"
    and "queue (page_processed_crawler_js api args u page anchors y1) =
           foldl (enqueue_link api MAX_PAGES_crawler_js (arg_base args) (arg_baseDomain args)
                    (finsert u (visited (sess y))))
             (queue y) (filter_links anchors)"
  using admit_Some [OF a]
  by (simp_all add: page_processed_crawler_js_def suspend_simps crawlPage_extract_frame
        crawlPage_extract_queue crawlPage_goto_simps content_audits_frame fingerprints
        split: option.splits)

lemma crawlPage_crawler_js_rendered_fields:
  assumes a: "admit MAX_PAGES_crawler_js u y = Some y1"
    and o: "open_page env u = None"
    and r: "render env u = Inr page"
    and e: "eval_links env u = Inr anchors"
  shows "net (crawlPage_crawler_js api env args u y) = net y @ [PageGoto u]"
    and "workingLinks (sess (crawlPage_crawler_js api env args u y)) =
           workingLinks (sess y) @ [\<lparr>lr_url = u, lr_status = StatusCode 200\<rparr>]"
    and "brokenLinks (sess (crawlPage_crawler_js api env args u y)) = brokenLinks (sess y)"
    and "contentHashes (sess (crawlPage_crawler_js api env args u y)) =
           contentHashes (duplicate_content_detection u (pg_hash page) (sess y))"
    and "duplicateContentIssues (sess (crawlPage_crawler_js api env args u y)) =
           duplicateContentIssues (duplicate_content_detection u (pg_hash page) (sess y))"
    and "queue (crawlPage_crawler_js api env args u y) =
           foldl (enqueue_link api MAX_PAGES_crawler_js (arg_base args) (arg_baseDomain args)
                    (finsert u (visited (sess y))))
             (queue y) (filter_links anchors)"
proof -
  let ?pp = "page_processed_crawler_js api args u page anchors y1"
  let ?yr = "?pp\<lparr>sess := foldl (\<lambda>s r. resource_failed r s) (sess ?pp) (failed_checks env u)\<rparr>"
  have p: "phase_of ?yr u = Some Checking"
    by (simp add: page_processed_crawler_js_def phase_of_simps)
  have "net (crawlPage_crawler_js api env args u y) = net y @ [PageGoto u] \<and>
      workingLinks (sess (crawlPage_crawler_js api env args u y)) =
           workingLinks (sess y) @ [\<lparr>lr_url = u, lr_status = StatusCode 200\<rparr>] \<and>
      brokenLinks (sess (crawlPage_crawler_js api env args u y)) = brokenLinks (sess y) \<and>
      contentHashes (sess (crawlPage_crawler_js api env args u y)) =
           contentHashes (duplicate_content_detection u (pg_hash page) (sess y)) \<and>
      duplicateContentIssues (sess (crawlPage_crawler_js api env args u y)) =
           duplicateContentIssues (duplicate_content_detection u (pg_hash page) (sess y)) \<and>
      queue (crawlPage_crawler_js api env args u y) =
           foldl (enqueue_link api MAX_PAGES_crawler_js (arg_base args) (arg_baseDomain args)
                    (finsert u (visited (sess y))))
             (queue y) (filter_links anchors)"
  proof (cases "arg_mainPageUrl args = u")
    case True
    then show ?thesis
      unfolding crawlPage_crawler_js_rendered [OF a o r e]
      by (simp add: exec_simps(1,2) crawlPage_complete_crawler_js_def Let_def step_Audited
            phase_of_simps run_lighthouse_def finish_simps suspend_simps mark_working_frame
            update_metrics_frame resources_frame page_processed_crawler_js_fields [OF a])
  next
    case False
    then show ?thesis
      unfolding crawlPage_crawler_js_rendered [OF a o r e]
      by (simp add: exec_simps(1,2) crawlPage_complete_crawler_js_def Let_def
            finish_simps mark_working_frame
            update_metrics_frame resources_frame page_processed_crawler_js_fields [OF a])
  qed
  then show "net (crawlPage_crawler_js api env args u y) = net y @ [PageGoto u]"
    and "workingLinks (sess (crawlPage_crawler_js api env args u y)) =
           workingLinks (sess y) @ [\<lparr>lr_url = u, lr_status = StatusCode 200\<rparr>]"
    and "brokenLinks (sess (crawlPage_crawler_js api env args u y)) = brokenLinks (sess y)"
    and "contentHashes (sess (crawlPage_crawler_js api env args u y)) =
           contentHashes (duplicate_content_detection u (pg_hash page) (sess y))"
    and "duplicateContentIssues (sess (crawlPage_crawler_js api env args u y)) =
           duplicateContentIssues (duplicate_content_detection u (pg_hash page) (sess y))"
    and "queue (crawlPage_crawler_js api env args u y) =
           foldl (enqueue_link api MAX_PAGES_crawler_js (arg_base args) (arg_baseDomain args)
                    (finsert u (visited (sess y))))
             (queue y) (filter_links anchors)"
    by simp_all
qed

lemma crawlPage_crawler_js_failed_fields:
  assumes a: "admit MAX_PAGES_crawler_js u y = Some y1"
    and f: "open_page env u = Some err \<or>
            open_page env u = None \<and>
            (render env u = Inl err \<or>
             (\<exists>page. render env u = Inr page) \<and> eval_links env u = Inl err)"
  shows "net (crawlPage_crawler_js api env args u y) =
           net y @ (if open_page env u = None then [PageGoto u] else []) @ [AxiosGet u]"
    and "brokenLinks (sess (crawlPage_crawler_js api env args u y)) =
           brokenLinks (sess y) @ [\<lparr>lr_url = u, lr_status = error_status err\<rparr>]"
    and "workingLinks (sess (crawlPage_crawler_js api env args u y)) =
           (case http_get env u of
              Inr res \<Rightarrow>
                workingLinks (sess y) @ [\<lparr>lr_url = u, lr_status = StatusCode (fst res)\<rparr>]
            | Inl e \<Rightarrow> workingLinks (sess y))"
proof -
  consider (1) "open_page env u = Some err"
    | (2) "open_page env u = None" "render env u = Inl err"
    | (3) page where "open_page env u = None" "render env u = Inr page"
        "eval_links env u = Inl err"
    using f by auto
  then have "net (crawlPage_crawler_js api env args u y) =
           net y @ (if open_page env u = None then [PageGoto u] else []) @ [AxiosGet u] \<and>
      brokenLinks (sess (crawlPage_crawler_js api env args u y)) =
           brokenLinks (sess y) @ [\<lparr>lr_url = u, lr_status = error_status err\<rparr>] \<and>
      workingLinks (sess (crawlPage_crawler_js api env args u y)) =
           (case http_get env u of
              Inr res \<Rightarrow>
                workingLinks (sess y) @ [\<lparr>lr_url = u, lr_status = StatusCode (fst res)\<rparr>]
            | Inl e \<Rightarrow> workingLinks (sess y))"
  proof cases
    case 1
    have p: "phase_of (suspend u Opening y1) u = Some Opening" by (simp add: phase_of_simps)
    show ?thesis
      unfolding crawlPage_crawler_js_unopened [OF a 1]
      using admit_Some [OF a] 1
      by (simp add: fallback_fields [OF p] suspend_simps cong: sum.case_cong)
  next
    case 2
    have p: "phase_of (crawlPage_goto u (suspend u Opening y1)) u = Some Fetching"
      by (simp add: phase_of_segments)
    show ?thesis
      unfolding crawlPage_crawler_js_unrendered [OF a 2]
      using admit_Some [OF a] 2
      by (simp add: fallback_fields [OF p] suspend_simps crawlPage_goto_simps
            cong: sum.case_cong)
  next
    case 3
    let ?yk = "suspend u (Evaluating page)
          ((crawlPage_goto u (suspend u Opening y1))
             \<lparr>sess := content_audits u page (sess (crawlPage_goto u (suspend u Opening y1)))\<rparr>)"
    have p: "phase_of ?yk u = Some (Evaluating page)" by (simp add: phase_of_simps)
    have t: "Evaluating page = Opening \<or> Evaluating page = Fetching \<or>
        (\<exists>p. Evaluating page = Evaluating p)" by simp
    show ?thesis
      unfolding crawlPage_crawler_js_unevaluated [OF a 3] fallback_fields [OF p t]
      using admit_Some [OF a] 3
      by (simp add: suspend_simps crawlPage_goto_simps content_audits_frame
            cong: sum.case_cong)
  qed
  then show "net (crawlPage_crawler_js api env args u y) =
           net y @ (if open_page env u = None then [PageGoto u] else []) @ [AxiosGet u]"
    and "brokenLinks (sess (crawlPage_crawler_js api env args u y)) =
           brokenLinks (sess y) @ [\<lparr>lr_url = u, lr_status = error_status err\<rparr>]"
    and "workingLinks (sess (crawlPage_crawler_js api env args u y)) =
           (case http_get env u of
              Inr res \<Rightarrow>
                workingLinks (sess y) @ [\<lparr>lr_url = u, lr_status = StatusCode (fst res)\<rparr>]
            | Inl e \<Rightarrow> workingLinks (sess y))"
    by simp_all
qed


section \<open>The reset block\<close>

lemma sample_admit:
  "u |\<notin>| visited (sess y) \<Longrightarrow> fcard (visited (sess y)) < MAX_PAGES \<Longrightarrow>
   \<exists>y1. admit MAX_PAGES u y = Some y1"
  by (simp add: admit_def Let_def)

lemma sample_admit_crawler_js:
  "u |\<notin>| visited (sess y) \<Longrightarrow> fcard (visited (sess y)) < MAX_PAGES_crawler_js \<Longrightarrow>
   \<exists>y1. admit MAX_PAGES_crawler_js u y = Some y1"
  by (simp add: admit_def Let_def)

lemma env_same_page_fields:
  "open_page env_same_page u = None"
  "render env_same_page u = Inr (sample_page ''H1'' [])"
  "close_page env_same_page u = None"
  "eval_links env_same_page u = Inr []"
  by (simp_all add: env_same_page_def)

lemma first_run_fields:
  "contentHashes (sess first_run) = [(''H1'', ''https://example.com/x'')]"
  "duplicateContentIssues (sess first_run) = []"
proof -
  obtain y1 where a: "admit MAX_PAGES (normalizeUrl sample_api ''https://example.com/x'')
      sample_start = Some y1"
    using sample_admit [of "''https://example.com/x''" sample_start]
    by (auto simp: sample_normalize sample_start_fields fcard_fempty MAX_PAGES_def)
  note f = crawlPage_rendered_fields [OF a env_same_page_fields(1,2,3), of sample_args]
  show "contentHashes (sess first_run) = [(''H1'', ''https://example.com/x'')]"
    unfolding first_run_def f(4)
    by (simp add: fingerprints sample_start_fields sample_page_def sample_normalize)
  show "duplicateContentIssues (sess first_run) = []"
    unfolding first_run_def f(5)
    by (simp add: fingerprints sample_start_fields sample_page_def)
qed

lemma runCrawl_reset_clears:
  "runCrawl_reset now s = (module_load now)\<lparr>contentHashes := contentHashes s\<rparr>"
  by (simp add: runCrawl_reset_def module_load_def)

text \<open>
  Claim C2, at an input where the code departs from it. The reset block at the head of
  runCrawl gives every module variable the value it had when the module was loaded, but
  for \<^verbatim>\<open>contentHashes\<close>, which it leaves as the previous run filled it. A second run in the
  same process that crawls a page of the first run records the page as a duplicate of
  itself.
\<close>

theorem runCrawl_reset_keeps_contentHashes:
  "runCrawl_reset now s = (module_load now)\<lparr>contentHashes := contentHashes s\<rparr> \<and>
   contentHashes (sess (run_start 2 [''https://example.com/''] (sess first_run)))
     = [(''H1'', ''https://example.com/x'')] \<and>
   visited (sess (run_start 2 [''https://example.com/''] (sess first_run))) = {||} \<and>
   duplicateContentIssues (sess second_run) =
     [\<lparr>dup_url = ''https://example.com/x'', duplicateOf = ''https://example.com/x'',
       issue = ''Duplicate content detected''\<rparr>]"
proof -
  let ?y = "run_start 2 [''https://example.com/''] (sess first_run)"
  have 1: "runCrawl_reset now s = (module_load now)\<lparr>contentHashes := contentHashes s\<rparr>"
    by (rule runCrawl_reset_clears)
  have 2: "contentHashes (sess ?y) = [(''H1'', ''https://example.com/x'')]"
    by (simp add: run_start_fields first_run_fields)
  have 3: "visited (sess ?y) = {||}" by (simp add: run_start_fields)
  obtain y1 where a: "admit MAX_PAGES (normalizeUrl sample_api ''https://example.com/x'') ?y
      = Some y1"
    using sample_admit [of "''https://example.com/x''" ?y]
    by (auto simp: sample_normalize run_start_fields fcard_fempty MAX_PAGES_def)
  note f = crawlPage_rendered_fields [OF a env_same_page_fields(1,2,3), of sample_args]
  have 4: "duplicateContentIssues (sess second_run) =
     [\<lparr>dup_url = ''https://example.com/x'', duplicateOf = ''https://example.com/x'',
       issue = ''Duplicate content detected''\<rparr>]"
    unfolding second_run_def f(5)
    by (simp add: fingerprints first_run_fields run_start_fields sample_page_def
          sample_normalize)
  from 1 2 3 4 show ?thesis by simp
qed


section \<open>The fingerprint index\<close>

lemma exec_visited:
  "\<forall>e \<in> set es. \<forall>u. e \<noteq> Invoke u \<Longrightarrow>
   visited (sess (exec f api args y es)) = visited (sess y)"
  by (induction es arbitrary: y) (simp_all add: exec_simps step_visited)

lemma no_Invoke:
  "\<forall>e \<in> set (crawlPage_events env n). \<forall>u. e \<noteq> Invoke u"
  "\<forall>e \<in> set (crawlPage_events_crawler_js env m n). \<forall>u. e \<noteq> Invoke u"
  by (auto simp: crawlPage_events_def crawlPage_events_crawler_js_def fallback_events_def
        split: option.splits sum.splits if_splits)

lemma crawlPage_visited:
  "visited (sess (crawlPage api env args u y)) = visited (sess (crawlPage_enter api u y))"
  "visited (sess (crawlPage_crawler_js api env args u y)) =
     visited (sess (crawlPage_enter_crawler_js u y))"
  by (simp_all add: crawlPage_def crawlPage_crawler_js_def crawlPage_enter_def
        crawlPage_enter_crawler_js_def Let_def exec_visited no_Invoke split: option.splits)

lemma step_fingerprint:
  "contentHashes (sess (step f api args y e)) = contentHashes (sess y) \<or>
   (\<exists>u h. contentHashes (sess (step f api args y e)) =
      contentHashes (duplicate_content_detection u h (sess y)))"
  by (cases e; cases f)
     (auto simp: step_def suspend_simps finish_simps crawlPage_goto_def
        crawlPage_process_frame crawlPage_extract_frame crawlPage_catch_def
        crawlPage_complete_def crawlPage_complete_crawler_js_def Let_def run_lighthouse_def
        crawlPage_threw_def crawlPage_threw_crawler_js_def crawlPage_catch_crawler_js_def
        fallback_success_def crawlPage_enter_def crawlPage_enter_crawler_js_def admit_def
        content_audits_frame mark_working_frame mark_broken_frame update_metrics_frame
        resource_failed_frame
        split: option.splits phase.splits)

lemma step_keeps_fingerprint:
  assumes "map_of (contentHashes (sess y)) h = Some u"
  shows "map_of (contentHashes (sess (step f api args y e))) h = Some u"
proof -
  have "map_of (contentHashes (duplicate_content_detection v k (sess y))) h = Some u" for v k
    using assms by (auto simp: fingerprints update_conv' split: option.splits)
  with assms step_fingerprint [of f api args y e] show ?thesis by auto
qed

lemma exec_keeps_fingerprint:
  "map_of (contentHashes (sess y)) h = Some u \<Longrightarrow>
   map_of (contentHashes (sess (exec f api args y es))) h = Some u"
  by (induction es arbitrary: y) (simp_all add: exec_simps step_keeps_fingerprint)

lemma earlier_run_fields:
  "contentHashes (sess earlier_run) = [(''H1'', ''https://example.com/y'')]"
proof -
  obtain y1 where a: "admit MAX_PAGES (normalizeUrl sample_api ''https://example.com/y'')
      sample_start = Some y1"
    using sample_admit [of "''https://example.com/y''" sample_start]
    by (auto simp: sample_normalize sample_start_fields fcard_fempty MAX_PAGES_def)
  note f = crawlPage_rendered_fields [OF a env_same_page_fields(1,2,3), of sample_args]
  show ?thesis
    unfolding earlier_run_def f(4)
    by (simp add: fingerprints sample_start_fields sample_page_def sample_normalize)
qed

lemma later_run_fields:
  "duplicateContentIssues (sess later_run) =
     [\<lparr>dup_url = ''https://example.com/x'', duplicateOf = ''https://example.com/y'',
       issue = ''Duplicate content detected''\<rparr>,
      \<lparr>dup_url = ''https://example.com/y'', duplicateOf = ''https://example.com/y'',
       issue = ''Duplicate content detected''\<rparr>]"
  "contentHashes (sess later_run) = [(''H1'', ''https://example.com/y'')]"
proof -
  let ?y = "run_start 2 [''https://example.com/''] (sess earlier_run)"
  let ?yx = "crawlPage sample_api env_same_page sample_args ''https://example.com/x'' ?y"
  obtain y1 where a: "admit MAX_PAGES (normalizeUrl sample_api ''https://example.com/x'') ?y
      = Some y1"
    using sample_admit [of "''https://example.com/x''" ?y]
    by (auto simp: sample_normalize run_start_fields fcard_fempty MAX_PAGES_def)
  note f = crawlPage_rendered_fields [OF a env_same_page_fields(1,2,3), of sample_args]
  have x: "contentHashes (sess ?yx) = [(''H1'', ''https://example.com/y'')]"
    "duplicateContentIssues (sess ?yx) =
       [\<lparr>dup_url = ''https://example.com/x'', duplicateOf = ''https://example.com/y'',
         issue = ''Duplicate content detected''\<rparr>]"
    "visited (sess ?yx) = {|''https://example.com/x''|}"
    unfolding f(4) f(5) crawlPage_visited
    by (simp_all add: fingerprints earlier_run_fields run_start_fields sample_page_def
          sample_normalize crawlPage_enter_visited fcard_fempty MAX_PAGES_def)
  obtain y2 where b: "admit MAX_PAGES (normalizeUrl sample_api ''https://example.com/y'') ?yx
      = Some y2"
    using sample_admit [of "''https://example.com/y''" ?yx]
    by (auto simp: sample_normalize x fcard_finsert_if fcard_fempty MAX_PAGES_def)
  note g = crawlPage_rendered_fields [OF b env_same_page_fields(1,2,3), of sample_args]
  show "duplicateContentIssues (sess later_run) =
     [\<lparr>dup_url = ''https://example.com/x'', duplicateOf = ''https://example.com/y'',
       issue = ''Duplicate content detected''\<rparr>,
      \<lparr>dup_url = ''https://example.com/y'', duplicateOf = ''https://example.com/y'',
       issue = ''Duplicate content detected''\<rparr>]"
    unfolding later_run_def g(5)
    by (simp add: fingerprints x sample_page_def sample_normalize)
  show "contentHashes (sess later_run) = [(''H1'', ''https://example.com/y'')]"
    unfolding later_run_def g(4)
    by (simp add: fingerprints x sample_page_def sample_normalize)
qed

lemma later_run_crawler_js_fields:
  "duplicateContentIssues (sess later_run_crawler_js) =
     [\<lparr>dup_url = ''https://example.com/x'', duplicateOf = ''https://example.com/y'',
       issue = ''Duplicate content detected''\<rparr>,
      \<lparr>dup_url = ''https://example.com/y'', duplicateOf = ''https://example.com/y'',
       issue = ''Duplicate content detected''\<rparr>]"
proof -
  let ?ye = "crawlPage_crawler_js sample_api env_same_page sample_args
      ''https://example.com/y'' sample_start"
  let ?y = "run_start 2 [''https://example.com/''] (sess ?ye)"
  let ?yx = "crawlPage_crawler_js sample_api env_same_page sample_args
      ''https://example.com/x'' ?y"
  obtain y0 where a0: "admit MAX_PAGES_crawler_js ''https://example.com/y'' sample_start
      = Some y0"
    using sample_admit_crawler_js [of "''https://example.com/y''" sample_start]
    by (auto simp: sample_start_fields fcard_fempty MAX_PAGES_crawler_js_def)
  note e = crawlPage_crawler_js_rendered_fields [OF a0 env_same_page_fields(1,2,4),
      of sample_api sample_args]
  have 0: "contentHashes (sess ?ye) = [(''H1'', ''https://example.com/y'')]"
    unfolding e(4) by (simp add: fingerprints sample_start_fields sample_page_def)
  obtain y1 where a: "admit MAX_PAGES_crawler_js ''https://example.com/x'' ?y = Some y1"
    using sample_admit_crawler_js [of "''https://example.com/x''" ?y]
    by (auto simp: run_start_fields fcard_fempty MAX_PAGES_crawler_js_def)
  note f = crawlPage_crawler_js_rendered_fields [OF a env_same_page_fields(1,2,4),
      of sample_api sample_args]
  have x: "contentHashes (sess ?yx) = [(''H1'', ''https://example.com/y'')]"
    "duplicateContentIssues (sess ?yx) =
       [\<lparr>dup_url = ''https://example.com/x'', duplicateOf = ''https://example.com/y'',
         issue = ''Duplicate content detected''\<rparr>]"
    "visited (sess ?yx) = {|''https://example.com/x''|}"
    unfolding f(4) f(5) crawlPage_visited
    by (simp_all add: fingerprints 0 run_start_fields sample_page_def
          crawlPage_enter_crawler_js_visited fcard_fempty MAX_PAGES_crawler_js_def)
  obtain y2 where b: "admit MAX_PAGES_crawler_js ''https://example.com/y'' ?yx = Some y2"
    using sample_admit_crawler_js [of "''https://example.com/y''" ?yx]
    by (auto simp: x fcard_finsert_if fcard_fempty MAX_PAGES_crawler_js_def)
  note g = crawlPage_crawler_js_rendered_fields [OF b env_same_page_fields(1,2,4),
      of sample_api sample_args]
  show ?thesis
    unfolding later_run_crawler_js_def g(5)
    by (simp add: fingerprints x sample_page_def)
qed

text \<open>
  Claim C6, at an input where the code departs from it. An entry of the fingerprint index
  is never overwritten, but the index is not emptied when a run starts (the defect of
  claim C2). A first run crawls \<^verbatim>\<open>/y\<close>; a second run in the same process crawls \<^verbatim>\<open>/x\<close> and
  then \<^verbatim>\<open>/y\<close>, two pages with the same body text. The page hashed first in the second run,
  \<^verbatim>\<open>/x\<close>, is recorded as a duplicate of \<^verbatim>\<open>/y\<close>, which is hashed second, and \<^verbatim>\<open>/y\<close> as a duplicate of
  itself; the same in both source files.
\<close>

theorem stale_index_reverses_duplicate:
  "contentHashes (sess (run_start 2 [''https://example.com/''] (sess earlier_run)))
     = [(''H1'', ''https://example.com/y'')] \<and>
   visited (sess (run_start 2 [''https://example.com/''] (sess earlier_run))) = {||} \<and>
   duplicateContentIssues (sess (run_start 2 [''https://example.com/''] (sess earlier_run)))
     = [] \<and>
   duplicateContentIssues (sess later_run) =
     [\<lparr>dup_url = ''https://example.com/x'', duplicateOf = ''https://example.com/y'',
       issue = ''Duplicate content detected''\<rparr>,
      \<lparr>dup_url = ''https://example.com/y'', duplicateOf = ''https://example.com/y'',
       issue = ''Duplicate content detected''\<rparr>] \<and>
   contentHashes (sess later_run) = [(''H1'', ''https://example.com/y'')] \<and>
   duplicateContentIssues (sess later_run_crawler_js) =
     [\<lparr>dup_url = ''https://example.com/x'', duplicateOf = ''https://example.com/y'',
       issue = ''Duplicate content detected''\<rparr>,
      \<lparr>dup_url = ''https://example.com/y'', duplicateOf = ''https://example.com/y'',
       issue = ''Duplicate content detected''\<rparr>]"
  by (simp add: run_start_fields earlier_run_fields later_run_fields
        later_run_crawler_js_fields)


section \<open>Primary fetch and fallback\<close>

lemma sample_start_admits:
  "\<exists>y1. admit MAX_PAGES_crawler_js ''https://example.com/z'' sample_start = Some y1"
  "\<exists>y1. admit MAX_PAGES (normalizeUrl sample_api ''https://example.com/z'') sample_start = Some y1"
  "\<exists>y1. admit MAX_PAGES (normalizeUrl sample_api ''https://example.com/'') sample_start = Some y1"
  using sample_admit_crawler_js [of "''https://example.com/z''" sample_start]
    sample_admit [of "''https://example.com/z''" sample_start]
    sample_admit [of "''https://example.com/''" sample_start]
  by (simp_all add: sample_normalize sample_start_fields fcard_fempty MAX_PAGES_def
        MAX_PAGES_crawler_js_def)

lemma timeout_status:
  "error_status timeout_error = StatusText ''Navigation timeout of 60000 ms exceeded''"
  "err_message timeout_error = ''Navigation timeout of 60000 ms exceeded''"
  by (simp_all add: error_status_def timeout_error_def)

lemma fallback_requests:
  "length (filter is_fallback (net (exec f api args (run_start now q s0) es))) =
     errors (performanceMetrics (sess (exec f api args (run_start now q s0) es)))"
  "AxiosGet v \<notin> set (net (exec Part_000 api args (run_start now q s0) es))"
  using run_inv_reached [of f api args now q s0 es]
    run_inv_reached [of Part_000 api args now q s0 es]
  by (simp_all add: run_inv_def fallback_inv_def core_of_fields)

text \<open>
  Claim C1, as the code has it. The try block of crawlPage fails when one of its awaited
  steps rejects: the opening of the page, \<^verbatim>\<open>page.goto\<close> or \<^verbatim>\<open>page.content()\<close>, and then
  \<^verbatim>\<open>page.$$eval\<close> in \<^verbatim>\<open>src/crawler.js\<close>, \<^verbatim>\<open>page.close()\<close> in \<^verbatim>\<open>src/unnamed/part_000\<close>. In
  \<^verbatim>\<open>src/crawler.js\<close> an admitted invocation sends the fallback GET exactly when its try block
  has failed, after the page request if the page was opened; a fallback GET that succeeds
  records the URL as a working link with the status of the response; an invocation whose
  try block does not fail records the URL as working with status 200, sends no fallback
  request and records no broken link. At every point of a run, however the invocations
  interleave, the number of fallback requests sent is \<^verbatim>\<open>performanceMetrics.errors\<close>, which the
  catch block of \<^verbatim>\<open>src/crawler.js\<close> increments and \<^verbatim>\<open>src/unnamed/part_000\<close> leaves at 0. In
  \<^verbatim>\<open>src/unnamed/part_000\<close> there is no fallback: an invocation sends no request but the page
  request, a run sends no GET, and a try block that fails records the URL as broken with
  the message of the error and records no working link.
\<close>

theorem fallback_iff_primary_failed:
  "(admit MAX_PAGES_crawler_js u y = Some y1 \<longrightarrow>
      (let y' = crawlPage_crawler_js api env args u y;
           failed = (open_page env u \<noteq> None \<or> isl (render env u) \<or> isl (eval_links env u))
       in net y' =
            net y @ (if open_page env u = None then [PageGoto u] else []) @
            (if failed then [AxiosGet u] else []) \<and>
          (AxiosGet u \<in> set (drop (length (net y)) (net y')) \<longleftrightarrow> failed) \<and>
          (\<forall>st page. failed \<and> http_get env u = Inr (st, page) \<longrightarrow>
             workingLinks (sess y') =
               workingLinks (sess y) @ [\<lparr>lr_url = u, lr_status = StatusCode st\<rparr>]) \<and>
          (\<not> failed \<longrightarrow>
             workingLinks (sess y') =
               workingLinks (sess y) @ [\<lparr>lr_url = u, lr_status = StatusCode 200\<rparr>] \<and>
             brokenLinks (sess y') = brokenLinks (sess y)))) \<and>
   (admit MAX_PAGES (normalizeUrl api u) y = Some y2 \<longrightarrow>
      (let n = normalizeUrl api u; y' = crawlPage api env args u y
       in net y' = net y @ (if open_page env n = None then [PageGoto n] else []) \<and>
          (\<forall>err. open_page env n = Some err \<or>
                 open_page env n = None \<and>
                 (render env n = Inl err \<or>
                  (\<exists>page. render env n = Inr page) \<and> close_page env n = Some err) \<longrightarrow>
             brokenLinks (sess y') =
               brokenLinks (sess y) @
                 [\<lparr>lr_url = n, lr_status = StatusText (err_message err)\<rparr>] \<and>
             workingLinks (sess y') = workingLinks (sess y)))) \<and>
   length (filter is_fallback (net (exec f api args (run_start now q s0) es))) =
     errors (performanceMetrics (sess (exec f api args (run_start now q s0) es))) \<and>
   AxiosGet v \<notin> set (net (exec Part_000 api args (run_start now q s0) es))"
proof (intro conjI impI)
  assume a: "admit MAX_PAGES_crawler_js u y = Some y1"
  let ?y' = "crawlPage_crawler_js api env args u y"
  let ?failed = "open_page env u \<noteq> None \<or> isl (render env u) \<or> isl (eval_links env u)"
  have n: "net ?y' =
            net y @ (if open_page env u = None then [PageGoto u] else []) @
            (if ?failed then [AxiosGet u] else [])"
    and w: "\<forall>st page. ?failed \<and> http_get env u = Inr (st, page) \<longrightarrow>
             workingLinks (sess ?y') =
               workingLinks (sess y) @ [\<lparr>lr_url = u, lr_status = StatusCode st\<rparr>]"
    and r: "\<not> ?failed \<longrightarrow>
             workingLinks (sess ?y') =
               workingLinks (sess y) @ [\<lparr>lr_url = u, lr_status = StatusCode 200\<rparr>] \<and>
             brokenLinks (sess ?y') = brokenLinks (sess y)"
  proof -
    show "net ?y' =
            net y @ (if open_page env u = None then [PageGoto u] else []) @
            (if ?failed then [AxiosGet u] else [])"
    proof (cases ?failed)
      case True
      then obtain err where f: "open_page env u = Some err \<or>
            open_page env u = None \<and>
            (render env u = Inl err \<or>
             (\<exists>page. render env u = Inr page) \<and> eval_links env u = Inl err)"
        by (cases "open_page env u"; cases "render env u"; cases "eval_links env u") auto
      from crawlPage_crawler_js_failed_fields(1) [OF a f] True show ?thesis by simp
    next
      case False
      then obtain page anchors where o: "open_page env u = None"
        and p: "render env u = Inr page" and e: "eval_links env u = Inr anchors"
        by (cases "open_page env u"; cases "render env u"; cases "eval_links env u") auto
      from crawlPage_crawler_js_rendered_fields(1) [OF a o p e] False show ?thesis by simp
    qed
    show "\<forall>st page. ?failed \<and> http_get env u = Inr (st, page) \<longrightarrow>
             workingLinks (sess ?y') =
               workingLinks (sess y) @ [\<lparr>lr_url = u, lr_status = StatusCode st\<rparr>]"
    proof (intro allI impI)
      fix st page
      assume h: "?failed \<and> http_get env u = Inr (st, page)"
      then obtain err where f: "open_page env u = Some err \<or>
            open_page env u = None \<and>
            (render env u = Inl err \<or>
             (\<exists>page. render env u = Inr page) \<and> eval_links env u = Inl err)"
        by (cases "open_page env u"; cases "render env u"; cases "eval_links env u") auto
      from crawlPage_crawler_js_failed_fields(3) [OF a f] h
      show "workingLinks (sess ?y') =
               workingLinks (sess y) @ [\<lparr>lr_url = u, lr_status = StatusCode st\<rparr>]"
        by simp
    qed
    show "\<not> ?failed \<longrightarrow>
             workingLinks (sess ?y') =
               workingLinks (sess y) @ [\<lparr>lr_url = u, lr_status = StatusCode 200\<rparr>] \<and>
             brokenLinks (sess ?y') = brokenLinks (sess y)"
    proof
      assume "\<not> ?failed"
      then obtain page anchors where o: "open_page env u = None"
        and p: "render env u = Inr page" and e: "eval_links env u = Inr anchors"
        by (cases "open_page env u"; cases "render env u"; cases "eval_links env u") auto
      from crawlPage_crawler_js_rendered_fields(2,3) [OF a o p e]
      show "workingLinks (sess ?y') =
               workingLinks (sess y) @ [\<lparr>lr_url = u, lr_status = StatusCode 200\<rparr>] \<and>
             brokenLinks (sess ?y') = brokenLinks (sess y)"
        by simp
    qed
  qed
  have i: "AxiosGet u \<in> set (drop (length (net y)) (net ?y')) \<longleftrightarrow> ?failed"
    unfolding n by auto
  show "let y' = ?y'; failed = ?failed
       in net y' =
            net y @ (if open_page env u = None then [PageGoto u] else []) @
            (if failed then [AxiosGet u] else []) \<and>
          (AxiosGet u \<in> set (drop (length (net y)) (net y')) \<longleftrightarrow> failed) \<and>
          (\<forall>st page. failed \<and> http_get env u = Inr (st, page) \<longrightarrow>
             workingLinks (sess y') =
               workingLinks (sess y) @ [\<lparr>lr_url = u, lr_status = StatusCode st\<rparr>]) \<and>
          (\<not> failed \<longrightarrow>
             workingLinks (sess y') =
               workingLinks (sess y) @ [\<lparr>lr_url = u, lr_status = StatusCode 200\<rparr>] \<and>
             brokenLinks (sess y') = brokenLinks (sess y))"
    unfolding Let_def using n i w r by blast
next
  assume a: "admit MAX_PAGES (normalizeUrl api u) y = Some y2"
  let ?n = "normalizeUrl api u"
  let ?y' = "crawlPage api env args u y"
  have n: "net ?y' = net y @ (if open_page env ?n = None then [PageGoto ?n] else [])"
  proof (cases "open_page env ?n")
    case (Some err)
    then have "open_page env ?n = Some err \<or>
            open_page env ?n = None \<and>
            (render env ?n = Inl err \<or>
             (\<exists>page. render env ?n = Inr page) \<and> close_page env ?n = Some err)" by simp
    from crawlPage_failed_fields(1) [OF a this] show ?thesis .
  next
    case None
    show ?thesis
    proof (cases "render env ?n")
      case (Inl err)
      with None have "open_page env ?n = Some err \<or>
            open_page env ?n = None \<and>
            (render env ?n = Inl err \<or>
             (\<exists>page. render env ?n = Inr page) \<and> close_page env ?n = Some err)" by simp
      from crawlPage_failed_fields(1) [OF a this] show ?thesis .
    next
      case (Inr page)
      show ?thesis
      proof (cases "close_page env ?n")
        case (Some err)
        with None Inr have "open_page env ?n = Some err \<or>
            open_page env ?n = None \<and>
            (render env ?n = Inl err \<or>
             (\<exists>page. render env ?n = Inr page) \<and> close_page env ?n = Some err)" by simp
        from crawlPage_failed_fields(1) [OF a this] show ?thesis .
      next
        case c: None
        from crawlPage_rendered_fields(1) [OF a None Inr c] None show ?thesis by simp
      qed
    qed
  qed
  have b: "\<forall>err. open_page env ?n = Some err \<or>
                 open_page env ?n = None \<and>
                 (render env ?n = Inl err \<or>
                  (\<exists>page. render env ?n = Inr page) \<and> close_page env ?n = Some err) \<longrightarrow>
             brokenLinks (sess ?y') =
               brokenLinks (sess y) @
                 [\<lparr>lr_url = ?n, lr_status = StatusText (err_message err)\<rparr>] \<and>
             workingLinks (sess ?y') = workingLinks (sess y)"
    using crawlPage_failed_fields(2,3) [OF a] by blast
  show "let n = ?n; y' = ?y'
       in net y' = net y @ (if open_page env n = None then [PageGoto n] else []) \<and>
          (\<forall>err. open_page env n = Some err \<or>
                 open_page env n = None \<and>
                 (render env n = Inl err \<or>
                  (\<exists>page. render env n = Inr page) \<and> close_page env n = Some err) \<longrightarrow>
             brokenLinks (sess y') =
               brokenLinks (sess y) @
                 [\<lparr>lr_url = n, lr_status = StatusText (err_message err)\<rparr>] \<and>
             workingLinks (sess y') = workingLinks (sess y))"
    unfolding Let_def using n b by blast
next
  show "length (filter is_fallback (net (exec f api args (run_start now q s0) es))) =
     errors (performanceMetrics (sess (exec f api args (run_start now q s0) es)))"
    by (rule fallback_requests)
  show "AxiosGet v \<notin> set (net (exec Part_000 api args (run_start now q s0) es))"
    by (rule fallback_requests)
qed

lemma sample_env_fields:
  "open_page env_fallback u = None"
  "render env_fallback u = Inl timeout_error"
  "close_page env_fallback u = None"
  "http_get env_fallback u = Inr (200, sample_page ''H2'' [])"
  "open_page env_eval_fails u = None"
  "render env_eval_fails u = Inr (sample_page ''H1'' [])"
  "eval_links env_eval_fails u = Inl timeout_error"
  "http_get env_eval_fails u = Inr (200, sample_page ''H2'' [])"
  "open_page env_no_browser u = Some timeout_error"
  "http_get env_no_browser u = Inr (200, sample_page ''H2'' [])"
  by (simp_all add: env_fallback_def env_eval_fails_def env_no_browser_def env_same_page_def)

theorem fallback_iff_primary_failed_witness:
  "admit MAX_PAGES_crawler_js ''https://example.com/z'' sample_start \<noteq> None \<and>
   admit MAX_PAGES (normalizeUrl sample_api ''https://example.com/z'') sample_start \<noteq> None \<and>
   isl (eval_links env_eval_fails ''https://example.com/z'') \<and>
   http_get env_eval_fails ''https://example.com/z'' = Inr (200, sample_page ''H2'' []) \<and>
   net (crawlPage_crawler_js sample_api env_eval_fails sample_args ''https://example.com/z''
          sample_start)
     = [PageGoto ''https://example.com/z'', AxiosGet ''https://example.com/z''] \<and>
   workingLinks (sess (crawlPage_crawler_js sample_api env_eval_fails sample_args
          ''https://example.com/z'' sample_start))
     = [\<lparr>lr_url = ''https://example.com/z'', lr_status = StatusCode 200\<rparr>] \<and>
   open_page env_no_browser ''https://example.com/z'' = Some timeout_error \<and>
   net (crawlPage_crawler_js sample_api env_no_browser sample_args ''https://example.com/z''
          sample_start)
     = [AxiosGet ''https://example.com/z''] \<and>
   net (crawlPage sample_api env_no_browser sample_args ''https://example.com/z'' sample_start)
     = [] \<and>
   brokenLinks (sess (crawlPage sample_api env_no_browser sample_args
          ''https://example.com/z'' sample_start))
     = [\<lparr>lr_url = ''https://example.com/z'',
         lr_status = StatusText ''Navigation timeout of 60000 ms exceeded''\<rparr>] \<and>
   net (crawlPage_crawler_js sample_api env_same_page sample_args ''https://example.com/z''
          sample_start)
     = [PageGoto ''https://example.com/z''] \<and>
   workingLinks (sess (crawlPage_crawler_js sample_api env_same_page sample_args
          ''https://example.com/z'' sample_start))
     = [\<lparr>lr_url = ''https://example.com/z'', lr_status = StatusCode 200\<rparr>] \<and>
   brokenLinks (sess (crawlPage_crawler_js sample_api env_same_page sample_args
          ''https://example.com/z'' sample_start)) = []"
proof -
  obtain y1 where a: "admit MAX_PAGES_crawler_js ''https://example.com/z'' sample_start = Some y1"
    using sample_start_admits(1) by blast
  obtain y2 where b: "admit MAX_PAGES (normalizeUrl sample_api ''https://example.com/z'')
      sample_start = Some y2"
    using sample_start_admits(2) by blast
  show ?thesis
    using fallback_iff_primary_failed [where u = "''https://example.com/z''"
        and y = sample_start and ?y1.0 = y1 and api = sample_api and env = env_eval_fails
        and args = sample_args and ?y2.0 = y2]
      fallback_iff_primary_failed [where u = "''https://example.com/z''"
        and y = sample_start and ?y1.0 = y1 and api = sample_api and env = env_no_browser
        and args = sample_args and ?y2.0 = y2]
      fallback_iff_primary_failed [where u = "''https://example.com/z''"
        and y = sample_start and ?y1.0 = y1 and api = sample_api and env = env_same_page
        and args = sample_args and ?y2.0 = y2]
      a b
    by (simp add: Let_def sample_start_fields sample_normalize sample_env_fields
          env_same_page_fields timeout_status)
qed

theorem fallback_success_still_broken:
  "brokenLinks (sess (crawlPage_crawler_js sample_api env_fallback sample_args
       ''https://example.com/z'' sample_start))
     = [\<lparr>lr_url = ''https://example.com/z'',
         lr_status = StatusText ''Navigation timeout of 60000 ms exceeded''\<rparr>] \<and>
   workingLinks (sess (crawlPage_crawler_js sample_api env_fallback sample_args
       ''https://example.com/z'' sample_start))
     = [\<lparr>lr_url = ''https://example.com/z'', lr_status = StatusCode 200\<rparr>] \<and>
   net (crawlPage sample_api env_fallback sample_args ''https://example.com/z'' sample_start)
     = [PageGoto ''https://example.com/z''] \<and>
   brokenLinks (sess (crawlPage sample_api env_fallback sample_args
       ''https://example.com/z'' sample_start))
     = [\<lparr>lr_url = ''https://example.com/z'',
         lr_status = StatusText ''Navigation timeout of 60000 ms exceeded''\<rparr>] \<and>
   workingLinks (sess (crawlPage sample_api env_fallback sample_args
       ''https://example.com/z'' sample_start)) = []"
proof -
  obtain y1 where a: "admit MAX_PAGES_crawler_js ''https://example.com/z'' sample_start = Some y1"
    using sample_start_admits(1) by blast
  obtain y2 where b: "admit MAX_PAGES (normalizeUrl sample_api ''https://example.com/z'')
      sample_start = Some y2"
    using sample_start_admits(2) by blast
  have f: "open_page env_fallback ''https://example.com/z'' = Some timeout_error \<or>
      open_page env_fallback ''https://example.com/z'' = None \<and>
      (render env_fallback ''https://example.com/z'' = Inl timeout_error \<or>
       (\<exists>page. render env_fallback ''https://example.com/z'' = Inr page) \<and>
       eval_links env_fallback ''https://example.com/z'' = Inl timeout_error)"
    by (simp add: sample_env_fields)
  have g: "open_page env_fallback (normalizeUrl sample_api ''https://example.com/z'')
        = Some timeout_error \<or>
      open_page env_fallback (normalizeUrl sample_api ''https://example.com/z'') = None \<and>
      (render env_fallback (normalizeUrl sample_api ''https://example.com/z'')
         = Inl timeout_error \<or>
       (\<exists>page. render env_fallback (normalizeUrl sample_api ''https://example.com/z'')
          = Inr page) \<and>
       close_page env_fallback (normalizeUrl sample_api ''https://example.com/z'')
         = Some timeout_error)"
    by (simp add: sample_env_fields)
  show ?thesis
    using crawlPage_crawler_js_failed_fields(2,3) [OF a f, of sample_api sample_args]
      crawlPage_failed_fields(1,2,3) [OF b g, of sample_args]
    by (simp add: sample_env_fields timeout_status sample_start_fields sample_normalize)
qed


section \<open>The link loop\<close>

lemma enqueue_link_new:
  assumes v: "v \<in> set (enqueue_link api m b d V q a)" and n: "v \<notin> set q"
  shows "\<not> not_crawlable (trim (split_hash_first (fst a))) \<and>
         full_href api (trim (split_hash_first (fst a))) b = Some v \<and>
         (startsWith v b \<or> startsWith v d) \<and> v |\<notin>| V"
  using v n
  by (auto simp: enqueue_link_def Let_def split: if_splits option.splits)

lemma enqueue_links_new:
  "v \<in> set (foldl (enqueue_link api m b d V) q ls) \<Longrightarrow> v \<notin> set q \<Longrightarrow>
   \<exists>a \<in> set ls.
     \<not> not_crawlable (trim (split_hash_first (fst a))) \<and>
     full_href api (trim (split_hash_first (fst a))) b = Some v \<and>
     (startsWith v b \<or> startsWith v d) \<and> v |\<notin>| V"
proof (induction ls arbitrary: q)
  case Nil
  then show ?case by simp
next
  case (Cons a ls)
  show ?case
  proof (cases "v \<in> set (enqueue_link api m b d V q a)")
    case True
    from enqueue_link_new [OF True Cons.prems(2)] show ?thesis by simp
  next
    case False
    from Cons.IH [OF _ False] Cons.prems(1) show ?thesis by auto
  qed
qed

lemma full_href_hash_free:
  assumes k: "resolve_keeps_hash_free api"
    and f: "full_href api (trim (split_hash_first h)) b = Some v"
  shows "CHR ''#'' \<notin> set v"
proof (cases "startsWith (trim (split_hash_first h)) ''http''")
  case True
  with f have "v = trim (split_hash_first h)" by (simp add: full_href_def)
  then show ?thesis using cleaned_hash_free [of h] by simp
next
  case False
  with f have "url_resolve api (trim (split_hash_first h)) b = Some v"
    by (simp add: full_href_def)
  with k cleaned_hash_free [of h] show ?thesis
    unfolding resolve_keeps_hash_free_def by blast
qed

lemma step_queue:
  "queue (step f api args y e) = queue y \<or>
   (\<exists>u page anchors.
      (f = Part_000 \<and> e = Closed u \<and> phase_of y u = Some (Closing page) \<and>
       anchors = pg_anchors page \<or>
       f = Crawler_js \<and> e = Evaluated u anchors \<and> phase_of y u = Some (Evaluating page)) \<and>
      queue (step f api args y e) =
        foldl (enqueue_link api (max_pages f) (arg_base args) (arg_baseDomain args)
                 (visited (sess y)))
          (queue y) (filter_links anchors))"
proof (cases e)
  case (Closed u)
  show ?thesis
  proof (cases "f = Part_000 \<and> (\<exists>page. phase_of y u = Some (Closing page))")
    case True
    then obtain page where p: "phase_of y u = Some (Closing page)" and f: "f = Part_000"
      by blast
    have "queue (step f api args y e) =
        foldl (enqueue_link api (max_pages f) (arg_base args) (arg_baseDomain args)
                 (visited (sess y)))
          (queue y) (filter_links (pg_anchors page))"
      using p f Closed
      by (simp add: step_Closed suspend_simps crawlPage_process_queue page_links_def
            max_pages_def)
    with p f Closed show ?thesis by blast
  next
    case False
    then have "queue (step f api args y e) = queue y"
      using Closed
      by (cases f; cases "phase_of y u"; cases "the (phase_of y u)")
         (auto simp: step_def crawlPage_catch_def finish_simps)
    then show ?thesis by simp
  qed
next
  case (Evaluated u anchors)
  show ?thesis
  proof (cases "f = Crawler_js \<and> (\<exists>page. phase_of y u = Some (Evaluating page))")
    case True
    then obtain page where p: "phase_of y u = Some (Evaluating page)" and f: "f = Crawler_js"
      by blast
    have "queue (step f api args y e) =
        foldl (enqueue_link api (max_pages f) (arg_base args) (arg_baseDomain args)
                 (visited (sess y)))
          (queue y) (filter_links anchors)"
      using p f Evaluated
      by (simp add: step_Evaluated suspend_simps crawlPage_extract_queue max_pages_def)
    with p f Evaluated show ?thesis by blast
  next
    case False
    then have "queue (step f api args y e) = queue y"
      using Evaluated
      by (cases f; cases "phase_of y u"; cases "the (phase_of y u)") (auto simp: step_def)
    then show ?thesis by simp
  qed
qed (cases f;
     auto simp: step_def suspend_simps finish_simps crawlPage_goto_def
        crawlPage_catch_def crawlPage_complete_def crawlPage_complete_crawler_js_def Let_def
        run_lighthouse_def crawlPage_threw_def crawlPage_threw_crawler_js_def
        crawlPage_catch_crawler_js_def fallback_success_def crawlPage_enter_def
        crawlPage_enter_crawler_js_def admit_def
        split: option.splits phase.splits)+

lemma sample_api_hash_free: "resolve_keeps_hash_free sample_api"
  unfolding resolve_keeps_hash_free_def sample_api_def
  by (auto simp: sample_resolve_table_def split: if_splits)

text \<open>
  Claim C8, as the code has it. The fragment is removed by the link loop of crawlPage, which
  cuts the href at the first \<^verbatim>\<open>#\<close> and trims it, so that the cleaned href has no \<^verbatim>\<open>#\<close>
  (normalizeUrl keeps the fragment, see the example after the theorem). Whatever the step,
  a URL is new in the queue only when the step is the one that processes the links of a
  page, the URL comes from an anchor of that page whose cleaned href is not empty, starts
  with none of \<^verbatim>\<open>mailto:\<close>, \<^verbatim>\<open>tel:\<close>, \<^verbatim>\<open>javascript:\<close>, \<^verbatim>\<open>data:\<close>, \<^verbatim>\<open>blob:\<close>, and either starts with \<^verbatim>\<open>http\<close>
  and is the URL itself or resolves to the URL against the base; the URL starts with the
  base or the base domain and is not visited. It has no \<^verbatim>\<open>#\<close>, given that resolving a
  reference with no \<^verbatim>\<open>#\<close> yields none.
\<close>

theorem only_crawlable_links_enqueued:
  "(v \<in> set (queue (step f api args y e)) \<and> v \<notin> set (queue y) \<longrightarrow>
      (\<exists>u page anchors href text.
         (f = Part_000 \<and> e = Closed u \<and> phase_of y u = Some (Closing page) \<and>
          anchors = pg_anchors page \<or>
          f = Crawler_js \<and> e = Evaluated u anchors \<and>
          phase_of y u = Some (Evaluating page)) \<and>
         (href, text) \<in> set anchors \<and>
         (let cleaned = trim (split_hash_first href) in
            cleaned \<noteq> [] \<and> \<not> startsWith cleaned ''mailto:'' \<and>
            \<not> startsWith cleaned ''tel:'' \<and> \<not> startsWith cleaned ''javascript:'' \<and>
            \<not> startsWith cleaned ''data:'' \<and> \<not> startsWith cleaned ''blob:'' \<and>
            (if startsWith cleaned ''http'' then v = cleaned
             else url_resolve api cleaned (arg_base args) = Some v)) \<and>
         (startsWith v (arg_base args) \<or> startsWith v (arg_baseDomain args)) \<and>
         v |\<notin>| visited (sess y))) \<and>
   (resolve_keeps_hash_free api \<and>
    v \<in> set (queue (step f api args y e)) \<and> v \<notin> set (queue y) \<longrightarrow> CHR ''#'' \<notin> set v) \<and>
   CHR ''#'' \<notin> set (trim (split_hash_first h))"
proof -
  have main: "\<exists>u page anchors href text.
         (f = Part_000 \<and> e = Closed u \<and> phase_of y u = Some (Closing page) \<and>
          anchors = pg_anchors page \<or>
          f = Crawler_js \<and> e = Evaluated u anchors \<and>
          phase_of y u = Some (Evaluating page)) \<and>
         (href, text) \<in> set anchors \<and>
         \<not> not_crawlable (trim (split_hash_first href)) \<and>
         full_href api (trim (split_hash_first href)) (arg_base args) = Some v \<and>
         (startsWith v (arg_base args) \<or> startsWith v (arg_baseDomain args)) \<and>
         v |\<notin>| visited (sess y)"
    if a: "v \<in> set (queue (step f api args y e))" and b: "v \<notin> set (queue y)"
  proof -
    from a b have "queue (step f api args y e) \<noteq> queue y" by auto
    with step_queue [of f api args y e]
    obtain u page anchors where
      w: "f = Part_000 \<and> e = Closed u \<and> phase_of y u = Some (Closing page) \<and>
          anchors = pg_anchors page \<or>
          f = Crawler_js \<and> e = Evaluated u anchors \<and> phase_of y u = Some (Evaluating page)"
      and q: "queue (step f api args y e) =
        foldl (enqueue_link api (max_pages f) (arg_base args) (arg_baseDomain args)
                 (visited (sess y)))
          (queue y) (filter_links anchors)"
      by blast
    from a have "v \<in> set (foldl (enqueue_link api (max_pages f) (arg_base args)
        (arg_baseDomain args) (visited (sess y))) (queue y) (filter_links anchors))"
      unfolding q .
    from enqueue_links_new [OF this b]
    obtain l where l: "l \<in> set (filter_links anchors)"
      and c: "\<not> not_crawlable (trim (split_hash_first (fst l)))"
        "full_href api (trim (split_hash_first (fst l))) (arg_base args) = Some v"
        "startsWith v (arg_base args) \<or> startsWith v (arg_baseDomain args)"
        "v |\<notin>| visited (sess y)"
      by blast
    from l have "(fst l, snd l) \<in> set anchors" by (simp add: filter_links_def)
    with w c show ?thesis by blast
  qed
  have 1: "v \<in> set (queue (step f api args y e)) \<and> v \<notin> set (queue y) \<longrightarrow>
      (\<exists>u page anchors href text.
         (f = Part_000 \<and> e = Closed u \<and> phase_of y u = Some (Closing page) \<and>
          anchors = pg_anchors page \<or>
          f = Crawler_js \<and> e = Evaluated u anchors \<and>
          phase_of y u = Some (Evaluating page)) \<and>
         (href, text) \<in> set anchors \<and>
         (let cleaned = trim (split_hash_first href) in
            cleaned \<noteq> [] \<and> \<not> startsWith cleaned ''mailto:'' \<and>
            \<not> startsWith cleaned ''tel:'' \<and> \<not> startsWith cleaned ''javascript:'' \<and>
            \<not> startsWith cleaned ''data:'' \<and> \<not> startsWith cleaned ''blob:'' \<and>
            (if startsWith cleaned ''http'' then v = cleaned
             else url_resolve api cleaned (arg_base args) = Some v)) \<and>
         (startsWith v (arg_base args) \<or> startsWith v (arg_baseDomain args)) \<and>
         v |\<notin>| visited (sess y))"
  proof
    assume "v \<in> set (queue (step f api args y e)) \<and> v \<notin> set (queue y)"
    then obtain u page anchors href tx where
      w: "f = Part_000 \<and> e = Closed u \<and> phase_of y u = Some (Closing page) \<and>
          anchors = pg_anchors page \<or>
          f = Crawler_js \<and> e = Evaluated u anchors \<and> phase_of y u = Some (Evaluating page)"
      and m: "(href, tx) \<in> set anchors"
      and c: "\<not> not_crawlable (trim (split_hash_first href))"
      and r: "full_href api (trim (split_hash_first href)) (arg_base args) = Some v"
      and s: "startsWith v (arg_base args) \<or> startsWith v (arg_baseDomain args)"
        "v |\<notin>| visited (sess y)"
      using main by blast
    from c r have "let cleaned = trim (split_hash_first href) in
            cleaned \<noteq> [] \<and> \<not> startsWith cleaned ''mailto:'' \<and>
            \<not> startsWith cleaned ''tel:'' \<and> \<not> startsWith cleaned ''javascript:'' \<and>
            \<not> startsWith cleaned ''data:'' \<and> \<not> startsWith cleaned ''blob:'' \<and>
            (if startsWith cleaned ''http'' then v = cleaned
             else url_resolve api cleaned (arg_base args) = Some v)"
      by (auto simp: not_crawlable_def full_href_def Let_def split: if_splits)
    with w m s show "\<exists>u page anchors href text.
         (f = Part_000 \<and> e = Closed u \<and> phase_of y u = Some (Closing page) \<and>
          anchors = pg_anchors page \<or>
          f = Crawler_js \<and> e = Evaluated u anchors \<and>
          phase_of y u = Some (Evaluating page)) \<and>
         (href, text) \<in> set anchors \<and>
         (let cleaned = trim (split_hash_first href) in
            cleaned \<noteq> [] \<and> \<not> startsWith cleaned ''mailto:'' \<and>
            \<not> startsWith cleaned ''tel:'' \<and> \<not> startsWith cleaned ''javascript:'' \<and>
            \<not> startsWith cleaned ''data:'' \<and> \<not> startsWith cleaned ''blob:'' \<and>
            (if startsWith cleaned ''http'' then v = cleaned
             else url_resolve api cleaned (arg_base args) = Some v)) \<and>
         (startsWith v (arg_base args) \<or> startsWith v (arg_baseDomain args)) \<and>
         v |\<notin>| visited (sess y)"
      by blast
  qed
  have 2: "resolve_keeps_hash_free api \<and>
    v \<in> set (queue (step f api args y e)) \<and> v \<notin> set (queue y) \<longrightarrow> CHR ''#'' \<notin> set v"
    using main full_href_hash_free [of api _ "arg_base args" v] by blast
  show ?thesis using 1 2 cleaned_hash_free [of h] by blast
qed

lemma sample_cleaned:
  "trim (split_hash_first ''/about#team'') = ''/about''"
  "trim (split_hash_first ''mailto:me@example.com'') = ''mailto:me@example.com''"
  "trim (split_hash_first ''//'') = ''//''"
  "trim (split_hash_first ''https://example.com.evil.org/login'')
     = ''https://example.com.evil.org/login''"
  "trim (split_hash_first ''httpdocs/page.html'') = ''httpdocs/page.html''"
  "trim ''/about#team'' = ''/about#team''"
  "trim ''mailto:me@example.com'' = ''mailto:me@example.com''"
  "trim ''//'' = ''//''"
  "trim ''https://example.com.evil.org/login'' = ''https://example.com.evil.org/login''"
  "trim ''httpdocs/page.html'' = ''httpdocs/page.html''"
  by (simp_all add: trim_def white_space_def suffix_to_prefix split_hash_first_def)

lemma sample_links_queue:
  "foldl (enqueue_link sample_api MAX_PAGES ''https://example.com/'' ''https://example.com''
            {|''https://example.com/''|})
     [''https://example.com/'']
     [(''/about#team'', ''About''), (''mailto:me@example.com'', ''Mail''), (''//'', ''Nowhere'')]
   = [''https://example.com/'', ''https://example.com/about'']"
  by (simp add: enqueue_link_def sample_cleaned not_crawlable_def startsWith_def full_href_def
        sample_api_def sample_resolve_table_def MAX_PAGES_def fcard_finsert_if fcard_fempty)

lemma evil_link_queue:
  "foldl (enqueue_link sample_api MAX_PAGES ''https://example.com/'' ''https://example.com''
            {|''https://example.com/''|})
     [''https://example.com/'']
     [(''https://example.com.evil.org/login'', ''Sign in'')]
   = [''https://example.com/'', ''https://example.com.evil.org/login'']"
  by (simp add: enqueue_link_def sample_cleaned not_crawlable_def startsWith_def full_href_def
        MAX_PAGES_def fcard_finsert_if fcard_fempty)

lemma seed_admitted_fields:
  "visited (sess seed_admitted) = {|''https://example.com/''|}"
  "queue seed_admitted = [''https://example.com/'']"
  "externalLinks (sess seed_admitted) = []"
  by (simp_all add: seed_admitted_def crawlPage_enter_visited sample_normalize
        sample_start_fields fcard_fempty MAX_PAGES_def crawlPage_enter_def admit_def Let_def)

lemma links_page_links:
  "filter_links (pg_anchors links_page) =
     [(''/about#team'', ''About''), (''mailto:me@example.com'', ''Mail''), (''//'', ''Nowhere'')]"
  by (simp add: filter_links_def links_page_def sample_page_def sample_cleaned)

lemma seed_loaded_fields:
  "phase_of seed_loaded ''https://example.com/'' = Some (Closing links_page)"
  "visited (sess seed_loaded) = {|''https://example.com/''|}"
  "queue seed_loaded = [''https://example.com/'']"
proof -
  obtain y1 where a: "admit MAX_PAGES (normalizeUrl sample_api ''https://example.com/'')
      sample_start = Some y1"
    using sample_start_admits(3) by blast
  have s: "seed_loaded =
      suspend ''https://example.com/'' (Closing links_page)
        (crawlPage_goto ''https://example.com/'' (suspend ''https://example.com/'' Opening y1))"
    using a admit_Some(14) [OF a]
    by (simp add: seed_loaded_def exec_simps(1,2) step_Invoke crawlPage_enter_def
          sample_normalize step_Wake step_Opened step_Loaded phase_of_simps phase_of_segments)
  show "phase_of seed_loaded ''https://example.com/'' = Some (Closing links_page)"
    unfolding s by (simp add: phase_of_simps)
  show "visited (sess seed_loaded) = {|''https://example.com/''|}"
    unfolding s using admit_Some(3) [OF a]
    by (simp add: suspend_simps crawlPage_goto_simps sample_normalize sample_start_fields)
  show "queue seed_loaded = [''https://example.com/'']"
    unfolding s using admit_Some(9) [OF a]
    by (simp add: suspend_simps crawlPage_goto_simps sample_start_fields)
qed

lemma links_page_queue:
  "queue (step Part_000 sample_api sample_args seed_loaded (Closed ''https://example.com/''))
     = [''https://example.com/'', ''https://example.com/about'']"
  by (simp add: step_Closed(1) [OF seed_loaded_fields(1)] suspend_simps crawlPage_process_queue
        seed_loaded_fields page_links_def links_page_links sample_args_def
        sample_links_queue [unfolded foldl.simps])

theorem only_crawlable_links_enqueued_witness:
  "''https://example.com/about'' \<in>
     set (queue (step Part_000 sample_api sample_args seed_loaded
                   (Closed ''https://example.com/''))) \<and>
   ''https://example.com/about'' \<notin> set (queue seed_loaded) \<and>
   resolve_keeps_hash_free sample_api \<and>
   phase_of seed_loaded ''https://example.com/'' = Some (Closing links_page) \<and>
   pg_anchors links_page =
     [(''/about#team'', ''About''), (''mailto:me@example.com'', ''Mail''),
      (''//'', ''Nowhere'')] \<and>
   queue (step Part_000 sample_api sample_args seed_loaded (Closed ''https://example.com/''))
     = [''https://example.com/'', ''https://example.com/about''] \<and>
   trim (split_hash_first ''/about#team'') = ''/about'' \<and>
   url_resolve sample_api ''/about'' (arg_base sample_args) = Some ''https://example.com/about'' \<and>
   startsWith ''https://example.com/about'' (arg_base sample_args) \<and>
   CHR ''#'' \<notin> set ''https://example.com/about''"
proof -
  have q: "''https://example.com/about'' \<in>
     set (queue (step Part_000 sample_api sample_args seed_loaded
                   (Closed ''https://example.com/'')))"
    by (simp add: links_page_queue)
  have n: "''https://example.com/about'' \<notin> set (queue seed_loaded)"
    by (simp add: seed_loaded_fields)
  have r: "url_resolve sample_api ''/about'' (arg_base sample_args)
      = Some ''https://example.com/about''"
    by (simp add: sample_api_def sample_resolve_table_def sample_args_def)
  have s: "startsWith ''https://example.com/about'' (arg_base sample_args)"
    by (simp add: startsWith_def sample_args_def)
  have p: "pg_anchors links_page =
     [(''/about#team'', ''About''), (''mailto:me@example.com'', ''Mail''),
      (''//'', ''Nowhere'')]"
    by (simp add: links_page_def sample_page_def)
  show ?thesis
    using only_crawlable_links_enqueued [where v = "''https://example.com/about''"
        and f = Part_000 and api = sample_api and args = sample_args and y = seed_loaded
        and e = "Closed ''https://example.com/''" and h = "''/about#team''"]
      q n r s p sample_api_hash_free links_page_queue seed_loaded_fields(1)
    by (simp add: sample_cleaned)
qed

lemma relative_http_external:
  "externalLinks (sess (process_link sample_api MAX_PAGES ''https://example.com/''
       ''https://example.com'' ''https://example.com/'' seed_admitted
       (''httpdocs/page.html'', ''Docs'')))
     = externalLinks (sess seed_admitted) @
         [FromTo ''https://example.com/'' ''httpdocs/page.html'']"
  by (simp add: process_link_external external_of_link_def sample_cleaned not_crawlable_def
        startsWith_def full_href_def)

theorem normalizeUrl_keeps_fragment:
  "normalizeUrl sample_api ''https://example.com/a#top'' = ''https://example.com/a#top'' \<and>
   CHR ''#'' \<in> set (normalizeUrl sample_api ''https://example.com/a#top'') \<and>
   url_href sample_api ''/about'' = None \<and>
   normalizeUrl sample_api ''/about'' = ''/about'' \<and>
   externalLinks (sess (process_link sample_api MAX_PAGES ''https://example.com/''
       ''https://example.com'' ''https://example.com/'' seed_admitted
       (''httpdocs/page.html'', ''Docs'')))
     = externalLinks (sess seed_admitted) @
         [FromTo ''https://example.com/'' ''httpdocs/page.html'']"
  using relative_http_external
  by (simp add: sample_normalize) (simp add: sample_api_def sample_href_table_def)

lemma data_link_recorded:
  "process_link sample_api MAX_PAGES ''https://example.com/'' ''https://example.com''
     ''https://example.com/'' seed_admitted (''data:text/plain,hi'', ''Note'') = seed_admitted"
  "extractLinks sample_api (sample_page ''H5'' [(''data:text/plain,hi'', ''Note'')])
     ''https://example.com/'' ''https://example.com/''
   = [LinkData ''https://example.com/'' ''data:text/plain,hi'' ''Note'' True False]"
proof -
  have c: "trim (split_hash_first ''data:text/plain,hi'') = ''data:text/plain,hi''"
    by (simp add: trim_def white_space_def suffix_to_prefix split_hash_first_def)
  show "process_link sample_api MAX_PAGES ''https://example.com/'' ''https://example.com''
     ''https://example.com/'' seed_admitted (''data:text/plain,hi'', ''Note'') = seed_admitted"
    by (simp add: process_link_def c not_crawlable_def startsWith_def)
  show "extractLinks sample_api (sample_page ''H5'' [(''data:text/plain,hi'', ''Note'')])
     ''https://example.com/'' ''https://example.com/''
   = [LinkData ''https://example.com/'' ''data:text/plain,hi'' ''Note'' True False]"
    by (simp add: extractLinks_def extractLinks_each_def sample_page_def c startsWith_def
          full_href_def sample_api_def sample_resolve_table_def)
qed

lemma evil_page_links:
  "page_links (sample_page ''H3'' [(''https://example.com.evil.org/login'', ''Sign in'')])
     = [(''https://example.com.evil.org/login'', ''Sign in'')]"
  by (simp add: page_links_def filter_links_def sample_page_def sample_cleaned)

lemma evil_extractLinks:
  "extractLinks sample_api
     (sample_page ''H3'' [(''https://example.com.evil.org/login'', ''Sign in'')])
     ''https://example.com/'' ''https://example.com/''
   = [LinkData ''https://example.com/'' ''https://example.com.evil.org/login'' ''Sign in''
        True False]"
  by (simp add: extractLinks_def extractLinks_each_def sample_page_def sample_cleaned
        startsWith_def full_href_def)

text \<open>
  Claim C5, at an input where the code departs from it. The seed is
  \<^verbatim>\<open>https://example.com\<close>; its page links to \<^verbatim>\<open>https://example.com.evil.org/login\<close>, a URL of
  another origin. The link loop tests \<^verbatim>\<open>fullHref.startsWith(baseDomain)\<close> with the origin
  \<^verbatim>\<open>https://example.com\<close> as a bare string prefix, so it pushes the URL onto the queue, while
  extractLinks, which tests the base with its final slash, reports the same link as
  external.
\<close>

theorem foreign_origin_link_is_enqueued:
  "runCrawl_args sample_api ''https://example.com'' = Some sample_args \<and>
   url_origin sample_api ''https://example.com'' = Some (arg_baseDomain sample_args) \<and>
   url_origin sample_api ''https://example.com.evil.org/login''
     = Some ''https://example.com.evil.org'' \<and>
   queue (crawlPage sample_api env_evil_link sample_args ''https://example.com/'' sample_start)
     = [''https://example.com/'', ''https://example.com.evil.org/login''] \<and>
   externalLinks (sess (crawlPage sample_api env_evil_link sample_args ''https://example.com/''
       sample_start))
     = [LinkData ''https://example.com/'' ''https://example.com.evil.org/login'' ''Sign in''
          True False]"
proof -
  obtain y1 where a: "admit MAX_PAGES (normalizeUrl sample_api ''https://example.com/'')
      sample_start = Some y1"
    using sample_start_admits(3) by blast
  have v: "open_page env_evil_link (normalizeUrl sample_api ''https://example.com/'') = None"
    "render env_evil_link (normalizeUrl sample_api ''https://example.com/'')
      = Inr (sample_page ''H3'' [(''https://example.com.evil.org/login'', ''Sign in'')])"
    "close_page env_evil_link (normalizeUrl sample_api ''https://example.com/'') = None"
    by (simp_all add: env_evil_link_def env_same_page_def)
  have o: "url_origin sample_api ''https://example.com'' = Some (arg_baseDomain sample_args)"
    "url_origin sample_api ''https://example.com.evil.org/login''
       = Some ''https://example.com.evil.org''"
    "runCrawl_args sample_api ''https://example.com'' = Some sample_args"
    by (simp_all add: sample_api_def sample_origin_table_def sample_args_def runCrawl_args_def
          endsWith_def suffix_to_prefix Let_def)
  have e: "external_of_link sample_api ''https://example.com/'' ''https://example.com''
      ''https://example.com/'' (''https://example.com.evil.org/login'', ''Sign in'') = []"
    by (simp add: external_of_link_def sample_cleaned not_crawlable_def startsWith_def
          full_href_def)
  show ?thesis
    using crawlPage_rendered_fields(6,7) [OF a v, of sample_args] o
    by (simp add: sample_args_def sample_normalize sample_start_fields
          evil_page_links evil_link_queue [unfolded foldl.simps] evil_extractLinks e)
qed


section \<open>Sitemap resolution\<close>

lemma unseen_mono: "seen |\<subseteq>| seen' \<Longrightarrow> unseen w seen' \<le> unseen w seen"
  unfolding unseen_def
  by (intro card_mono) (auto simp: less_eq_fset.rep_eq)

lemma unseen_insert:
  assumes "u |\<notin>| seen" and "map_of w u = Some d"
  shows "unseen w (finsert u seen) < unseen w seen"
proof -
  have m: "u \<in> set (map fst w)" using assms(2) by (auto dest: map_of_SomeD intro: rev_image_eqI)
  have "set (map fst w) - fset (finsert u seen) \<subset> set (map fst w) - fset seen"
    using assms(1) m by auto
  then show ?thesis
    unfolding unseen_def by (intro psubset_card_mono) auto
qed

lemma sitemap_loop_returns:
  assumes P: "\<And>u seen. unseen w seen < n \<Longrightarrow>
                \<exists>r seen'. getSitemapUrls n w u seen = Some (r, seen') \<and> seen |\<subseteq>| seen'"
  shows "unseen w seen < n \<Longrightarrow>
         \<exists>res seen'. sitemap_loop n w sms seen urls = Some (res, seen') \<and> seen |\<subseteq>| seen'"
proof (induction sms arbitrary: seen urls)
  case Nil
  then show ?case by simp
next
  case (Cons sm sms)
  show ?case
  proof (cases sm)
    case None
    then show ?thesis by simp
  next
    case (Some loc)
    from P [OF Cons.prems, of loc] obtain sub seenA
      where g: "getSitemapUrls n w loc seen = Some (sub, seenA)" and s: "seen |\<subseteq>| seenA"
      by blast
    have "unseen w seenA < n" using unseen_mono [OF s, of w] Cons.prems by simp
    from Cons.IH [OF this, of "urls @ sub"] obtain res seen'
      where l: "sitemap_loop n w sms seenA (urls @ sub) = Some (res, seen')"
        and s': "seenA |\<subseteq>| seen'"
      by blast
    from s s' have "seen |\<subseteq>| seen'" by auto
    with l show ?thesis using Some g by simp
  qed
qed

lemma getSitemapUrls_returns:
  "unseen w seen < n \<Longrightarrow>
   \<exists>r seen'. getSitemapUrls n w u seen = Some (r, seen') \<and> seen |\<subseteq>| seen'"
proof (induction n arbitrary: u seen)
  case 0
  then show ?case by simp
next
  case (Suc n)
  show ?case
  proof (cases "u |\<in>| seen")
    case True
    then show ?thesis by simp
  next
    case False
    show ?thesis
    proof (cases "map_of w u")
      case None
      then show ?thesis using False by auto
    next
      case (Some doc)
      show ?thesis
      proof (cases doc)
        case (Urlset us)
        then show ?thesis using False Some by (cases "urlset_locs us") auto
      next
        case OtherDocument
        then show ?thesis using False Some by auto
      next
        case (SitemapIndex sms)
        have "unseen w (finsert u seen) < n"
          using unseen_insert [OF False Some] Suc.prems by simp
        from sitemap_loop_returns [of w n, OF Suc.IH this, of sms "[]"]
        obtain res seen' where l: "sitemap_loop n w sms (finsert u seen) [] = Some (res, seen')"
          and s: "finsert u seen |\<subseteq>| seen'"
          by blast
        from s have "seen |\<subseteq>| seen'" by auto
        then show ?thesis using False Some SitemapIndex l by (cases res) auto
      qed
    qed
  qed
qed

lemma sitemap_loop_more_fuel:
  assumes P: "\<And>u seen x. getSitemapUrls n w u seen = Some x \<Longrightarrow>
                getSitemapUrls m w u seen = Some x"
  shows "sitemap_loop n w sms seen urls = Some x \<Longrightarrow> sitemap_loop m w sms seen urls = Some x"
proof (induction sms arbitrary: seen urls)
  case Nil
  then show ?case by simp
next
  case (Cons sm sms)
  show ?case
  proof (cases sm)
    case None
    then show ?thesis using Cons.prems by simp
  next
    case (Some loc)
    with Cons.prems obtain sub seenA
      where g: "getSitemapUrls n w loc seen = Some (sub, seenA)"
        and l: "sitemap_loop n w sms seenA (urls @ sub) = Some x"
      by (auto split: option.splits)
    from P [OF g] Cons.IH [OF l] show ?thesis using Some by simp
  qed
qed

lemma getSitemapUrls_more_fuel:
  "getSitemapUrls n w u seen = Some x \<Longrightarrow> n \<le> m \<Longrightarrow> getSitemapUrls m w u seen = Some x"
proof (induction n arbitrary: m u seen x)
  case 0
  then show ?case by simp
next
  case (Suc n)
  then obtain m' where m: "m = Suc m'" and le: "n \<le> m'" by (cases m) auto
  have L: "sitemap_loop n w sms s urls = Some z \<Longrightarrow> sitemap_loop m' w sms s urls = Some z"
    for sms s urls z
    by (rule sitemap_loop_more_fuel [of n w m']) (rule Suc.IH [OF _ le])
  show ?case
  proof (cases "u |\<in>| seen")
    case True
    then show ?thesis using Suc.prems(1) m by simp
  next
    case False
    show ?thesis
    proof (cases "map_of w u")
      case None
      then show ?thesis using False Suc.prems(1) m by simp
    next
      case (Some doc)
      show ?thesis
      proof (cases doc)
        case (Urlset us)
        then show ?thesis using False Some Suc.prems(1) m by simp
      next
        case OtherDocument
        then show ?thesis using False Some Suc.prems(1) m by simp
      next
        case (SitemapIndex sms)
        from Suc.prems(1) False Some SitemapIndex
        obtain z where l: "sitemap_loop n w sms (finsert u seen) [] = Some z"
          by (auto split: option.splits)
        from L [OF l] l show ?thesis
          using False Some SitemapIndex Suc.prems(1) m by simp
      qed
    qed
  qed
qed

lemma well_formed_doc:
  "well_formed w \<Longrightarrow> map_of w u = Some doc \<Longrightarrow> well_formed_entries doc"
  by (auto simp: well_formed_def list_all_iff dest!: map_of_SomeD)

lemma edges_of_index:
  "map_of w u = Some (SitemapIndex sms) \<Longrightarrow> sitemap_edges w `` {u} = {v. Some v \<in> set sms}"
  by (auto simp: sitemap_edges_def)

lemma edges_of_other:
  "(\<And>sms. map_of w u \<noteq> Some (SitemapIndex sms)) \<Longrightarrow> sitemap_edges w `` {u} = {}"
  by (auto simp: sitemap_edges_def)

lemma locs_of_entries: "None \<notin> set us \<Longrightarrow> {x. Some x \<in> set us} = set (map the us)"
proof (intro set_eqI iffI)
  fix x assume "x \<in> {x. Some x \<in> set us}"
  then have "Some x \<in> set us" by simp
  then have "the (Some x) \<in> the ` set us" by (rule imageI)
  then show "x \<in> set (map the us)" by simp
next
  fix x assume n: "None \<notin> set us" and "x \<in> set (map the us)"
  then obtain y where y: "y \<in> set us" "x = the y" by auto
  with n have "y = Some x" by (cases y) auto
  with y(1) show "x \<in> {x. Some x \<in> set us}" by simp
qed

lemma leaf_of_urlset:
  "map_of w u = Some (Urlset us) \<Longrightarrow> None \<notin> set us \<Longrightarrow> leaf_urls w u = set (map the us)"
  by (simp add: leaf_urls_def locs_of_entries)

lemma leaf_of_other:
  "(\<And>us. map_of w u \<noteq> Some (Urlset us)) \<Longrightarrow> leaf_urls w u = {}"
  by (auto simp: leaf_urls_def split: option.splits sitemap_doc.splits)

lemma explored_leaf:
  assumes "u |\<notin>| seen" and "sitemap_edges w `` {u} = {}"
  shows "explored w {u} seen (finsert u seen) (leaf_urls w u)"
  using assms unfolding explored_def by auto

lemma explored_seen:
  assumes "u |\<in>| seen"
  shows "explored w {u} seen seen {}"
  using assms unfolding explored_def by auto

lemma explored_index:
  assumes u: "u |\<notin>| seen" and e: "sitemap_edges w `` {u} = C" and l: "leaf_urls w u = {}"
    and x: "explored w C (finsert u seen) seen' leaves"
  shows "explored w {u} seen seen' leaves"
proof -
  let ?E = "sitemap_edges w"
  from x have 1: "fset (finsert u seen) \<subseteq> fset seen'" and 2: "C \<subseteq> fset seen'"
    and 3: "fset seen' - fset (finsert u seen) \<subseteq> ?E\<^sup>* `` C"
    and 4: "leaves = \<Union> (leaf_urls w ` (fset seen' - fset (finsert u seen)))"
    and 5: "\<forall>x \<in> fset seen' - fset (finsert u seen). ?E `` {x} \<subseteq> fset seen'"
    unfolding explored_def by blast+
  have d: "fset seen' - fset seen = insert u (fset seen' - fset (finsert u seen))"
    using 1 u by auto
  have r: "?E\<^sup>* `` C \<subseteq> ?E\<^sup>* `` {u}"
  proof
    fix v assume "v \<in> ?E\<^sup>* `` C"
    then obtain c where c: "c \<in> C" "(c, v) \<in> ?E\<^sup>*" by auto
    from c(1) e have "(u, c) \<in> ?E" by auto
    with c(2) show "v \<in> ?E\<^sup>* `` {u}" by (auto intro: converse_rtrancl_into_rtrancl)
  qed
  show ?thesis
    unfolding explored_def
  proof (intro conjI)
    show "fset seen \<subseteq> fset seen'" using 1 by auto
    show "{u} \<subseteq> fset seen'" using 1 by auto
    show "fset seen' - fset seen \<subseteq> ?E\<^sup>* `` {u}" unfolding d using 3 r by auto
    show "leaves = \<Union> (leaf_urls w ` (fset seen' - fset seen))" unfolding d using 4 l by simp
    show "\<forall>x \<in> fset seen' - fset seen. ?E `` {x} \<subseteq> fset seen'"
      unfolding d using 5 2 e by auto
  qed
qed

lemma explored_nil: "explored w {} seen seen {}"
  unfolding explored_def by auto

lemma explored_cons:
  assumes a: "explored w {c} seen seenA la" and b: "explored w C seenA seen' lb"
  shows "explored w (insert c C) seen seen' (la \<union> lb)"
proof -
  let ?E = "sitemap_edges w"
  from a have a1: "fset seen \<subseteq> fset seenA" and a2: "c \<in> fset seenA"
    and a3: "fset seenA - fset seen \<subseteq> ?E\<^sup>* `` {c}"
    and a4: "la = \<Union> (leaf_urls w ` (fset seenA - fset seen))"
    and a5: "\<forall>x \<in> fset seenA - fset seen. ?E `` {x} \<subseteq> fset seenA"
    unfolding explored_def by blast+
  from b have b1: "fset seenA \<subseteq> fset seen'" and b2: "C \<subseteq> fset seen'"
    and b3: "fset seen' - fset seenA \<subseteq> ?E\<^sup>* `` C"
    and b4: "lb = \<Union> (leaf_urls w ` (fset seen' - fset seenA))"
    and b5: "\<forall>x \<in> fset seen' - fset seenA. ?E `` {x} \<subseteq> fset seen'"
    unfolding explored_def by blast+
  have d: "fset seen' - fset seen = (fset seenA - fset seen) \<union> (fset seen' - fset seenA)"
    using a1 b1 by auto
  show ?thesis
    unfolding explored_def
  proof (intro conjI)
    show "fset seen \<subseteq> fset seen'" using a1 b1 by auto
    show "insert c C \<subseteq> fset seen'" using a2 b1 b2 by auto
    show "fset seen' - fset seen \<subseteq> ?E\<^sup>* `` insert c C"
      unfolding d using a3 b3 by blast
    show "la \<union> lb = \<Union> (leaf_urls w ` (fset seen' - fset seen))"
      unfolding d a4 b4 by auto
    show "\<forall>x \<in> fset seen' - fset seen. ?E `` {x} \<subseteq> fset seen'"
      unfolding d using a5 b5 b1 by blast
  qed
qed

lemma sitemap_loop_explores:
  assumes P: "\<And>u seen r seen'. getSitemapUrls n w u seen = Some (r, seen') \<Longrightarrow>
                explored w {u} seen seen' (set r)"
  shows "None \<notin> set sms \<Longrightarrow> sitemap_loop n w sms seen urls = Some (res, seen') \<Longrightarrow>
         \<exists>r L. res = Inr r \<and> explored w {v. Some v \<in> set sms} seen seen' L \<and>
               set r = set urls \<union> L"
proof (induction sms arbitrary: seen urls)
  case Nil
  then show ?case using explored_nil [of w seen] by auto
next
  case (Cons sm sms)
  from Cons.prems(1) obtain loc where sm: "sm = Some loc" by (cases sm) auto
  from Cons.prems(2) sm obtain sub seenA
    where g: "getSitemapUrls n w loc seen = Some (sub, seenA)"
      and l: "sitemap_loop n w sms seenA (urls @ sub) = Some (res, seen')"
    by (auto split: option.splits)
  from Cons.prems(1) have n: "None \<notin> set sms" by simp
  from Cons.IH [OF n l] obtain r L
    where r: "res = Inr r" and x: "explored w {v. Some v \<in> set sms} seenA seen' L"
      and s: "set r = set (urls @ sub) \<union> L"
    by blast
  have c: "{v. Some v \<in> set (sm # sms)} = insert loc {v. Some v \<in> set sms}"
    using sm by auto
  have "explored w {v. Some v \<in> set (sm # sms)} seen seen' (set sub \<union> L)"
    unfolding c using P [OF g] x by (rule explored_cons)
  moreover have "set r = set urls \<union> (set sub \<union> L)" using s by auto
  ultimately show ?case using r by blast
qed

lemma getSitemapUrls_explores:
  assumes wf: "well_formed w"
  shows "getSitemapUrls n w u seen = Some (r, seen') \<Longrightarrow> explored w {u} seen seen' (set r)"
proof (induction n arbitrary: u seen r seen')
  case 0
  then show ?case by simp
next
  case (Suc n)
  show ?case
  proof (cases "u |\<in>| seen")
    case True
    with Suc.prems have "r = []" "seen' = seen" by simp_all
    with explored_seen [OF True, of w] show ?thesis by simp
  next
    case False
    show ?thesis
    proof (cases "map_of w u")
      case None
      with Suc.prems False have e: "r = []" "seen' = finsert u seen" by simp_all
      have "sitemap_edges w `` {u} = {}" using None by (intro edges_of_other) simp
      moreover have "leaf_urls w u = {}" using None by (intro leaf_of_other) simp
      ultimately show ?thesis using explored_leaf [OF False, of w] e by simp
    next
      case (Some doc)
      show ?thesis
      proof (cases doc)
        case OtherDocument
        with Suc.prems False Some have e: "r = []" "seen' = finsert u seen" by simp_all
        have "sitemap_edges w `` {u} = {}"
          using Some OtherDocument by (intro edges_of_other) simp
        moreover have "leaf_urls w u = {}"
          using Some OtherDocument by (intro leaf_of_other) simp
        ultimately show ?thesis using explored_leaf [OF False, of w] e by simp
      next
        case (Urlset us)
        have n: "None \<notin> set us"
          using well_formed_doc [OF wf Some] Urlset by (simp add: well_formed_entries_def)
        with Suc.prems False Some Urlset
        have e: "r = map the us" "seen' = finsert u seen"
          by (simp_all add: urlset_locs_def)
        have "sitemap_edges w `` {u} = {}"
          using Some Urlset by (intro edges_of_other) simp
        moreover have "leaf_urls w u = set (map the us)"
          using Some Urlset n by (intro leaf_of_urlset) simp_all
        ultimately show ?thesis using explored_leaf [OF False, of w] e by simp
      next
        case (SitemapIndex sms)
        have n: "None \<notin> set sms"
          using well_formed_doc [OF wf Some] SitemapIndex by (simp add: well_formed_entries_def)
        from Suc.prems False Some SitemapIndex
        obtain res where l: "sitemap_loop n w sms (finsert u seen) [] = Some (res, seen')"
          and rr: "r = (case res of Inl e \<Rightarrow> [] | Inr urls \<Rightarrow> urls)"
          by (auto split: option.splits sum.splits)
        from sitemap_loop_explores [of n w sms "finsert u seen" "[]" res seen', OF Suc.IH n l]
        obtain r' L where r': "res = Inr r'"
          and x: "explored w {v. Some v \<in> set sms} (finsert u seen) seen' L"
          and s: "set r' = set [] \<union> L"
          by blast
        from r' rr s have "set r = L" by simp
        moreover have "sitemap_edges w `` {u} = {v. Some v \<in> set sms}"
          using Some SitemapIndex by (intro edges_of_index) simp
        moreover have "leaf_urls w u = {}"
          using Some SitemapIndex by (intro leaf_of_other) simp
        ultimately show ?thesis using explored_index [OF False _ _ x] by simp
      qed
    qed
  qed
qed

lemma explored_all:
  assumes "explored w {u} {||} seen' L"
  shows "fset seen' = (sitemap_edges w)\<^sup>* `` {u}"
    and "L = \<Union> (leaf_urls w ` ((sitemap_edges w)\<^sup>* `` {u}))"
proof -
  let ?E = "sitemap_edges w"
  from assms have 1: "u \<in> fset seen'" and 2: "fset seen' \<subseteq> ?E\<^sup>* `` {u}"
    and 3: "L = \<Union> (leaf_urls w ` fset seen')"
    and 4: "\<forall>x \<in> fset seen'. ?E `` {x} \<subseteq> fset seen'"
    unfolding explored_def by auto
  have "v \<in> fset seen'" if "(u, v) \<in> ?E\<^sup>*" for v
    using that
  proof (induction rule: rtrancl_induct)
    case base
    then show ?case using 1 .
  next
    case (step y z)
    with 4 show ?case by blast
  qed
  with 2 show s: "fset seen' = ?E\<^sup>* `` {u}" by auto
  from 3 show "L = \<Union> (leaf_urls w ` (?E\<^sup>* `` {u}))" unfolding s .
qed

text \<open>
  Claim C7. On every table of sitemap documents, cyclic or not, the resolver returns: some
  amount of fuel suffices, and more fuel gives the same result. A sitemap URL that is in
  the seen-set yields the empty list and leaves the set as it is. When every entry of
  every document has its \<^verbatim>\<open>loc\<close>, a call that starts with the empty seen-set ends with the
  seen-set holding exactly the sitemaps reachable from its argument, and returns exactly
  the page URLs that these list.
\<close>

theorem sitemap_resolution_terminates:
  "(\<exists>n r seen'. getSitemapUrls n w u seen = Some (r, seen')) \<and>
   (getSitemapUrls n w u seen = Some x \<and> n \<le> m \<longrightarrow> getSitemapUrls m w u seen = Some x) \<and>
   (u |\<in>| seen \<longrightarrow> getSitemapUrls (Suc n) w u seen = Some ([], seen)) \<and>
   (well_formed w \<and> getSitemapUrls n w u {||} = Some (r, seen') \<longrightarrow>
      fset seen' = (sitemap_edges w)\<^sup>* `` {u} \<and>
      set r = \<Union> (leaf_urls w ` ((sitemap_edges w)\<^sup>* `` {u})))"
proof (intro conjI impI)
  show "\<exists>n r seen'. getSitemapUrls n w u seen = Some (r, seen')"
    using getSitemapUrls_returns [of w seen "Suc (unseen w seen)" u] by blast
next
  assume "getSitemapUrls n w u seen = Some x \<and> n \<le> m"
  then show "getSitemapUrls m w u seen = Some x"
    using getSitemapUrls_more_fuel by blast
next
  assume "u |\<in>| seen"
  then show "getSitemapUrls (Suc n) w u seen = Some ([], seen)" by simp
next
  assume a: "well_formed w \<and> getSitemapUrls n w u {||} = Some (r, seen')"
  then have "explored w {u} {||} seen' (set r)"
    using getSitemapUrls_explores by blast
  from explored_all [OF this]
  show "fset seen' = (sitemap_edges w)\<^sup>* `` {u}"
    and "set r = \<Union> (leaf_urls w ` ((sitemap_edges w)\<^sup>* `` {u}))"
    by simp_all
qed

lemma cyclic_web_run:
  "getSitemapUrls (Suc (Suc (Suc 0))) cyclic_web ''https://example.com/sitemap.xml'' {||} =
     Some ([''https://example.com/a'', ''https://example.com/b''],
           {|''https://example.com/sitemap-c.xml'', ''https://example.com/sitemap-b.xml'',
             ''https://example.com/sitemap.xml''|})"
  by (simp add: cyclic_web_def urlset_locs_def)

lemma cyclic_web_well_formed: "well_formed cyclic_web"
  by (simp add: well_formed_def cyclic_web_def well_formed_entries_def)

theorem sitemap_resolution_terminates_witness:
  "well_formed cyclic_web \<and>
   getSitemapUrls 3 cyclic_web ''https://example.com/sitemap.xml'' {||} =
     Some ([''https://example.com/a'', ''https://example.com/b''],
           {|''https://example.com/sitemap-c.xml'', ''https://example.com/sitemap-b.xml'',
             ''https://example.com/sitemap.xml''|}) \<and>
   getSitemapUrls 7 cyclic_web ''https://example.com/sitemap.xml'' {||} =
     Some ([''https://example.com/a'', ''https://example.com/b''],
           {|''https://example.com/sitemap-c.xml'', ''https://example.com/sitemap-b.xml'',
             ''https://example.com/sitemap.xml''|}) \<and>
   ''https://example.com/sitemap.xml'' |\<in>| {|''https://example.com/sitemap.xml''|} \<and>
   getSitemapUrls 1 cyclic_web ''https://example.com/sitemap.xml''
       {|''https://example.com/sitemap.xml''|}
     = Some ([], {|''https://example.com/sitemap.xml''|}) \<and>
   \<Union> (leaf_urls cyclic_web `
        ((sitemap_edges cyclic_web)\<^sup>* `` {''https://example.com/sitemap.xml''}))
     = {''https://example.com/a'', ''https://example.com/b''}"
proof -
  have three: "(3::nat) = Suc (Suc (Suc 0))" by simp
  have run: "getSitemapUrls 3 cyclic_web ''https://example.com/sitemap.xml'' {||} =
     Some ([''https://example.com/a'', ''https://example.com/b''],
           {|''https://example.com/sitemap-c.xml'', ''https://example.com/sitemap-b.xml'',
             ''https://example.com/sitemap.xml''|})"
    unfolding three by (rule cyclic_web_run)
  note t = sitemap_resolution_terminates [of cyclic_web "''https://example.com/sitemap.xml''"
      "{||}" 3 "([''https://example.com/a'', ''https://example.com/b''],
           {|''https://example.com/sitemap-c.xml'', ''https://example.com/sitemap-b.xml'',
             ''https://example.com/sitemap.xml''|})" 7
      "[''https://example.com/a'', ''https://example.com/b'']"
      "{|''https://example.com/sitemap-c.xml'', ''https://example.com/sitemap-b.xml'',
             ''https://example.com/sitemap.xml''|}"]
  note s = sitemap_resolution_terminates [of cyclic_web "''https://example.com/sitemap.xml''"
      "{|''https://example.com/sitemap.xml''|}" 0]
  have one: "(1::nat) = Suc 0" by simp
  show ?thesis
    using t s run cyclic_web_well_formed unfolding one by auto
qed

end
